theory Spec2Isabelle
  imports Complex_Main "HOL-Library.Word"
begin

section \<open>Arrays\<close>

text \<open>
  The program computes on \<^verbatim>\<open>jax.numpy\<close> arrays of 32-bit floats. A float is
  modelled by the \<^typ>\<open>real\<close> it stands for, and the arithmetic is read in two ways.
  In the exact reading (this section and the sections on the networks, the utilities
  and the losses) \<^verbatim>\<open>exp\<close>, products, quotients and sums are those of the reals:
  nothing rounds, overflows or saturates. It says what the formulas of the program
  compute, and it is used for the examples of the payments and the losses, whose
  differences are far above any rounding. In the rounded reading (section
  \<open>Rounded arithmetic\<close>) every operation returns the rounding of its exact result
  in a number format, binary32 among them: the bounds on the outputs of
  \<^verbatim>\<open>sigmoid\<close> and \<^verbatim>\<open>softmax\<close> depend on it, since a float32 sigmoid reaches 1
  and a float32 softmax column need not sum to 1.

  A vector (rank 1) is a list, a matrix (rank 2) is the list of its rows. The list of
  rows of a matrix with no row does not record the number of columns; every statement
  below is about matrices with at least one row (at least one bidder).

  Exceptions of the source are values of \<open>error\<close>: \<^verbatim>\<open>jnp.stack\<close> of an empty list
  or of arrays of different shapes raises \<open>ValueError\<close>, an operation on arrays whose
  shapes do not broadcast raises \<open>TypeError\<close>, a failed \<^verbatim>\<open>chex\<close> assertion raises
  \<open>AssertionError\<close>; the training loop can raise \<open>ZeroDivisionError\<close> (integer
  modulo by zero) and \<open>UnboundLocalError\<close> (a local read before its assignment).
\<close>

type_synonym vec = "real list"
type_synonym mat = "real list list"

datatype error = ValueError | TypeError | AssertionError | ZeroDivisionError | UnboundLocalError

text \<open>An array of rank 0 to 3, for the places where the source changes the rank.\<close>

datatype arr = A0 real | A1 vec | A2 mat | A3 "mat list"

definition ncols :: "mat \<Rightarrow> nat" where
  "ncols m = (case m of [] \<Rightarrow> 0 | r # _ \<Rightarrow> length r)"

text \<open>\<open>has_shape m b k\<close>: the matrix has shape \<open>(b, k)\<close>.\<close>

definition has_shape :: "mat \<Rightarrow> nat \<Rightarrow> nat \<Rightarrow> bool" where
  "has_shape m b k = (length m = b \<and> list_all (\<lambda>r. length r = k) m)"

text \<open>\<^verbatim>\<open>jnp.ravel\<close> of a matrix: its rows one after the other.\<close>

definition ravel :: "mat \<Rightarrow> vec" where
  "ravel m = concat m"

text \<open>
  \<^verbatim>\<open>jax.nn.sigmoid\<close> and \<^verbatim>\<open>jax.nn.relu\<close>, in the exact reading: the sigmoid
  lies strictly between 0 and 1 there, which a float32 sigmoid does not for arguments
  of large absolute value (\<open>sigmoid_fl\<close> below).
\<close>

definition sigmoid :: "real \<Rightarrow> real" where
  "sigmoid x = 1 / (1 + exp (- x))"

definition relu :: "real \<Rightarrow> real" where
  "relu x = max x 0"

text \<open>
  \<^verbatim>\<open>jnp.stack(vs, axis=0)\<close> of vectors: the matrix whose rows they are. It raises on
  an empty list and on vectors of different lengths.
\<close>

definition stack0 :: "vec list \<Rightarrow> error + mat" where
  "stack0 vs =
     (case vs of
        [] \<Rightarrow> Inl ValueError
      | v # ws \<Rightarrow> if list_all (\<lambda>w. length w = length v) ws then Inr (v # ws) else Inl ValueError)"

text \<open>\<^verbatim>\<open>jnp.stack(vs, axis=1)\<close> of vectors: the matrix whose columns they are.\<close>

definition stack1 :: "vec list \<Rightarrow> error + mat" where
  "stack1 vs =
     (case vs of
        [] \<Rightarrow> Inl ValueError
      | v # ws \<Rightarrow>
          if list_all (\<lambda>w. length w = length v) ws
          then Inr (map (\<lambda>j. map (\<lambda>w. w ! j) (v # ws)) [0..<length v])
          else Inl ValueError)"

text \<open>\<^verbatim>\<open>jnp.stack([a])\<close>: one more axis, of length 1, in front.\<close>

fun stack_single :: "arr \<Rightarrow> error + arr" where
  "stack_single (A0 x) = Inr (A1 [x])"
| "stack_single (A1 v) = Inr (A2 [v])"
| "stack_single (A2 m) = Inr (A3 [m])"
| "stack_single (A3 t) = Inl ValueError"

text \<open>\<^verbatim>\<open>jnp.squeeze\<close>: every axis of length 1 is removed.\<close>

fun squeeze :: "arr \<Rightarrow> arr" where
  "squeeze (A0 x) = A0 x"
| "squeeze (A1 v) = (if length v = 1 then A0 (hd v) else A1 v)"
| "squeeze (A2 m) =
     (if length m = 1 then (if length (hd m) = 1 then A0 (hd (hd m)) else A1 (hd m))
      else if ncols m = 1 then A1 (map hd m)
      else A2 m)"
| "squeeze (A3 t) = A3 t"

text \<open>
  \<^verbatim>\<open>jax.nn.softmax(L, axis=0)\<close>, in the exact reading: every column is divided,
  after \<^verbatim>\<open>exp\<close>, by its sum over the rows. (The library subtracts the column's
  maximum before \<^verbatim>\<open>exp\<close>, which changes nothing in exact arithmetic:
  \<open>softmax0_fl_exact\<close>.)
\<close>

definition softmax0 :: "mat \<Rightarrow> mat" where
  "softmax0 L =
     map (\<lambda>row. map (\<lambda>j. exp (row ! j) / sum_list (map (\<lambda>r. exp (r ! j)) L)) [0..<length row]) L"

subsection \<open>Broadcasting\<close>

text \<open>
  NumPy's rule for a binary operation on two arrays: the shapes are aligned at the last
  axis, the shorter one is filled with 1 in front, and on every axis the two lengths must
  be equal or one of them 1; an axis of length 1 is repeated. \<open>bdim\<close> is the length of
  the result's axis, \<open>bidx\<close> the index read on an axis of length \<open>n\<close>.
\<close>

definition bdim :: "nat \<Rightarrow> nat \<Rightarrow> nat" where
  "bdim a b = (if a = 1 then b else a)"

definition bidx :: "nat \<Rightarrow> nat \<Rightarrow> nat" where
  "bidx n i = (if n = 1 then 0 else i)"

definition bcompat :: "nat \<Rightarrow> nat \<Rightarrow> bool" where
  "bcompat a b = (a = b \<or> a = 1 \<or> b = 1)"

definition bop1 :: "(real \<Rightarrow> real \<Rightarrow> real) \<Rightarrow> vec \<Rightarrow> vec \<Rightarrow> error + vec" where
  "bop1 f u v =
     (if bcompat (length u) (length v)
      then Inr (map (\<lambda>i. f (u ! bidx (length u) i) (v ! bidx (length v) i))
                  [0..<bdim (length u) (length v)])
      else Inl TypeError)"

definition bop2 :: "(real \<Rightarrow> real \<Rightarrow> real) \<Rightarrow> mat \<Rightarrow> mat \<Rightarrow> error + mat" where
  "bop2 f a b =
     (if bcompat (length a) (length b) \<and> bcompat (ncols a) (ncols b)
      then Inr (map (\<lambda>i. map (\<lambda>j. f (a ! bidx (length a) i ! bidx (ncols a) j)
                                      (b ! bidx (length b) i ! bidx (ncols b) j))
                             [0..<bdim (ncols a) (ncols b)])
                  [0..<bdim (length a) (length b)])
      else Inl TypeError)"

text \<open>
  An array of rank at most 2 times a matrix: the array is read as a matrix, with axes
  of length 1 in front. (A rank 3 array never reaches this place: \<open>squeeze\<close> of a
  matrix has rank at most 2.)
\<close>

fun as_mat :: "arr \<Rightarrow> error + mat" where
  "as_mat (A0 x) = Inr [[x]]"
| "as_mat (A1 v) = Inr [v]"
| "as_mat (A2 m) = Inr m"
| "as_mat (A3 t) = Inl TypeError"

definition mul_arr_mat :: "arr \<Rightarrow> mat \<Rightarrow> error + mat" where
  "mul_arr_mat a m = (case as_mat a of Inl e \<Rightarrow> Inl e | Inr a' \<Rightarrow> bop2 (*) a' m)"

text \<open>\<^verbatim>\<open>jnp.sum(m, axis=1)\<close>: the sum of every row.\<close>

definition sum_axis1 :: "mat \<Rightarrow> vec" where
  "sum_axis1 m = map sum_list m"

section \<open>The networks\<close>

text \<open>
  \<^verbatim>\<open>permute_along_bidders(B, i)\<close> slices and concatenates along axis 1. On a matrix
  of shape (bidders, items), the shape the losses hand to the networks, axis 1 is the
  item axis: column \<open>i\<close> moves to the front of every row, and a matrix with at most
  \<open>i\<close> columns is returned as it is. The rows keep their lengths
  (\<open>permute_along_bidders_shape\<close>), so the source's \<^verbatim>\<open>assert_equal_shape\<close> holds.
\<close>

definition permute_along_bidders :: "mat \<Rightarrow> nat \<Rightarrow> mat" where
  "permute_along_bidders B i = map (\<lambda>r. take 1 (drop i r) @ take i r @ drop (i + 1) r) B"

text \<open>
  The multi-layer perceptrons are Haiku's, and their weights are the parameters of the
  program: a parameter set is modelled by the functions its perceptrons compute, from
  the flattened profile to the output layer.
\<close>

record auct_params =
  alloc_prob :: "vec \<Rightarrow> vec"
  alloc_which :: "vec \<Rightarrow> vec"
  pay_mlp :: "vec \<Rightarrow> vec"

record misr_params =
  misr_mlp :: "vec \<Rightarrow> vec"

text \<open>
  \<^verbatim>\<open>Auctioneer.__call__\<close>, lines 93 to 112: the allocation matrix. \<open>alloc_logits\<close>
  is the list of bidder vectors that line 98 stacks.
\<close>

definition alloc_logits :: "nat \<Rightarrow> auct_params \<Rightarrow> mat \<Rightarrow> mat" where
  "alloc_logits bidders p vals =
     map (\<lambda>i. alloc_which p (ravel (permute_along_bidders vals i))) [0..<bidders]"

definition auct_alloc :: "nat \<Rightarrow> nat \<Rightarrow> auct_params \<Rightarrow> mat \<Rightarrow> error + mat" where
  "auct_alloc bidders items p vals =
     (let alloc = map sigmoid (alloc_prob p (ravel vals)) in
      if length alloc \<noteq> items then Inl AssertionError
      else
        case stack0 (alloc_logits bidders p vals) of
          Inl e \<Rightarrow> Inl e
        | Inr L0 \<Rightarrow>
            let L = softmax0 L0 in
            if \<not> has_shape L bidders items then Inl AssertionError
            else
              let alloc2 = map (\<lambda>row. map (\<lambda>j. alloc ! j * row ! j) [0..<items]) L in
              if \<not> has_shape alloc2 bidders items then Inl AssertionError else Inr alloc2)"

text \<open>
  Lines 115 to 129: the fraction every bidder pays. The perceptron's outputs are stacked
  as columns and squeezed; with one bidder the squeeze leaves a scalar, which is stacked
  again.
\<close>

definition assert_vec :: "arr \<Rightarrow> nat \<Rightarrow> error + vec" where
  "assert_vec a n =
     (case a of A1 v \<Rightarrow> if length v = n then Inr v else Inl AssertionError
              | _ \<Rightarrow> Inl AssertionError)"

definition auct_pay_frac :: "nat \<Rightarrow> auct_params \<Rightarrow> mat \<Rightarrow> error + vec" where
  "auct_pay_frac bidders p vals =
     (case stack1 (map (\<lambda>i. map sigmoid (pay_mlp p (ravel (permute_along_bidders vals i))))
                     [0..<bidders]) of
        Inl e \<Rightarrow> Inl e
      | Inr s \<Rightarrow>
          let pay = squeeze (A2 s) in
          if bidders = 1
          then (case stack_single pay of Inl e \<Rightarrow> Inl e | Inr pay1 \<Rightarrow> assert_vec pay1 bidders)
          else assert_vec pay bidders)"

text \<open>
  Line 133: the fractions times \<^verbatim>\<open>jnp.sum(jnp.squeeze(vals) * alloc, axis=1)\<close>, both
  products broadcast. Then \<^verbatim>\<open>Auctioneer.__call__\<close> as a whole.
\<close>

definition allocated_value :: "mat \<Rightarrow> mat \<Rightarrow> error + vec" where
  "allocated_value vals alloc =
     (case mul_arr_mat (squeeze (A2 vals)) alloc of
        Inl e \<Rightarrow> Inl e
      | Inr m \<Rightarrow> Inr (sum_axis1 m))"

definition Auctioneer :: "nat \<Rightarrow> nat \<Rightarrow> auct_params \<Rightarrow> mat \<Rightarrow> error + (mat \<times> vec)" where
  "Auctioneer bidders items p vals =
     (case auct_alloc bidders items p vals of
        Inl e \<Rightarrow> Inl e
      | Inr alloc \<Rightarrow>
          (case auct_pay_frac bidders p vals of
             Inl e \<Rightarrow> Inl e
           | Inr fracs \<Rightarrow>
               (case allocated_value vals alloc of
                  Inl e \<Rightarrow> Inl e
                | Inr s \<Rightarrow>
                    (case bop1 (*) fracs s of
                       Inl e \<Rightarrow> Inl e
                     | Inr pay \<Rightarrow>
                         if length pay = bidders then Inr (alloc, pay)
                         else Inl AssertionError))))"

text \<open>\<^verbatim>\<open>Misreporter.__call__\<close>.\<close>

definition Misreporter :: "nat \<Rightarrow> nat \<Rightarrow> misr_params \<Rightarrow> mat \<Rightarrow> error + mat" where
  "Misreporter bidders items p vals =
     (case stack0 (map (\<lambda>i. misr_mlp p (ravel (permute_along_bidders vals i))) [0..<bidders]) of
        Inl e \<Rightarrow> Inl e
      | Inr misreports \<Rightarrow>
          if \<not> has_shape misreports bidders items then Inl AssertionError
          else Inr (map (map sigmoid) misreports))"

section \<open>Rounded arithmetic\<close>

text \<open>
  IEEE 754 binary32, the \<^verbatim>\<open>float32\<close> of JAX's default configuration. \<open>round_even\<close> is
  the integer nearest to a real, the even one on a tie. Around a number \<open>x\<close> with
  \<open>2 ^ e \<le> \<bar>x\<bar> < 2 ^ (e + 1)\<close> the floats are the multiples of \<open>2 ^ (e - 23)\<close>, and
  the multiples of \<open>2 ^ (- 149)\<close> below \<open>2 ^ (- 126)\<close> (the subnormal numbers);
  \<open>float32_round x\<close> is the nearest of them, with ties to the even multiple. The
  exponent is not bounded above here: a result above \<open>float32_max\<close>, the largest finite
  float, stands for the format's infinity.
\<close>

definition round_even :: "real \<Rightarrow> int" where
  "round_even y =
     (let f = \<lfloor>y\<rfloor>; r = y - of_int f
      in if r < 1 / 2 then f else if 1 / 2 < r then f + 1 else if even f then f else f + 1)"

definition float32_round :: "real \<Rightarrow> real" where
  "float32_round x =
     (if x = 0 then 0
      else let e = max \<lfloor>log 2 \<bar>x\<bar>\<rfloor> (- 126); u = 2 powr (of_int e - 23)
           in u * of_int (round_even (x / u)))"

definition float32_max :: real where
  "float32_max = (2 ^ 24 - 1) * 2 ^ 104"

text \<open>
  A number format: the rounding of an exact result, the format's \<^verbatim>\<open>exp\<close>, its sum
  of a vector (\<^verbatim>\<open>jnp.sum\<close>; the order of the additions is the backend's choice) and
  the test for its infinity. \<open>float32\<close> rounds every operation to the nearest float,
  with a correctly rounded \<^verbatim>\<open>exp\<close> and the sum taken from left to right; \<open>exact\<close>
  rounds nothing and has no infinity, it is the exact reading.
\<close>

record fmt =
  fl_round :: "real \<Rightarrow> real"
  fl_exp :: "real \<Rightarrow> real"
  fl_sum :: "vec \<Rightarrow> real"
  fl_inf :: "real \<Rightarrow> bool"

definition float32 :: fmt where
  "float32 =
     \<lparr>fl_round = float32_round,
      fl_exp = (\<lambda>x. float32_round (exp x)),
      fl_sum = foldl (\<lambda>a x. float32_round (a + x)) 0,
      fl_inf = (\<lambda>x. float32_max < x)\<rparr>"

definition exact :: fmt where
  "exact = \<lparr>fl_round = (\<lambda>x. x), fl_exp = exp, fl_sum = sum_list, fl_inf = (\<lambda>x. False)\<rparr>"

text \<open>
  \<^verbatim>\<open>jax.nn.sigmoid(x)\<close> is computed as \<open>1 / (1 + exp (- x))\<close>, each operation rounded;
  when \<^verbatim>\<open>exp\<close> overflows to infinity, the sum is infinite and the quotient is 0.
\<close>

definition sigmoid_fl :: "fmt \<Rightarrow> real \<Rightarrow> real" where
  "sigmoid_fl F x =
     (let e = fl_exp F (- x)
      in if fl_inf F e then 0 else fl_round F (1 / fl_round F (1 + e)))"

text \<open>
  \<^verbatim>\<open>jax.nn.softmax(L, axis=0)\<close> is computed as
  \<^verbatim>\<open>unnormalized = exp(L - max(L, axis=0))\<close> and
  \<^verbatim>\<open>unnormalized / sum(unnormalized, axis=0)\<close>.
\<close>

definition softmax0_fl :: "fmt \<Rightarrow> mat \<Rightarrow> mat" where
  "softmax0_fl F L =
     map (\<lambda>row. map (\<lambda>j.
            let x_max = Max (set (map (\<lambda>r. r ! j) L));
                unnormalized = (\<lambda>r. fl_exp F (fl_round F (r ! j - x_max)))
            in fl_round F (unnormalized row / fl_sum F (map unnormalized L)))
          [0..<length row]) L"

text \<open>
  \<^verbatim>\<open>Auctioneer.__call__\<close> and \<^verbatim>\<open>Misreporter.__call__\<close> in a number format:
  the definitions of the section on the networks, line by line, with the format's
  sigmoid, softmax, products and sums. The outputs of the perceptrons are numbers of
  the format. Shapes, broadcasting and exceptions do not depend on the format.
\<close>

definition auct_alloc_fl :: "fmt \<Rightarrow> nat \<Rightarrow> nat \<Rightarrow> auct_params \<Rightarrow> mat \<Rightarrow> error + mat" where
  "auct_alloc_fl F bidders items p vals =
     (let alloc = map (sigmoid_fl F) (alloc_prob p (ravel vals)) in
      if length alloc \<noteq> items then Inl AssertionError
      else
        case stack0 (alloc_logits bidders p vals) of
          Inl e \<Rightarrow> Inl e
        | Inr L0 \<Rightarrow>
            let L = softmax0_fl F L0 in
            if \<not> has_shape L bidders items then Inl AssertionError
            else
              let alloc2 = map (\<lambda>row. map (\<lambda>j. fl_round F (alloc ! j * row ! j)) [0..<items]) L in
              if \<not> has_shape alloc2 bidders items then Inl AssertionError else Inr alloc2)"

definition auct_pay_frac_fl :: "fmt \<Rightarrow> nat \<Rightarrow> auct_params \<Rightarrow> mat \<Rightarrow> error + vec" where
  "auct_pay_frac_fl F bidders p vals =
     (case stack1 (map (\<lambda>i. map (sigmoid_fl F) (pay_mlp p (ravel (permute_along_bidders vals i))))
                     [0..<bidders]) of
        Inl e \<Rightarrow> Inl e
      | Inr s \<Rightarrow>
          let pay = squeeze (A2 s) in
          if bidders = 1
          then (case stack_single pay of Inl e \<Rightarrow> Inl e | Inr pay1 \<Rightarrow> assert_vec pay1 bidders)
          else assert_vec pay bidders)"

definition allocated_value_fl :: "fmt \<Rightarrow> mat \<Rightarrow> mat \<Rightarrow> error + vec" where
  "allocated_value_fl F vals alloc =
     (case as_mat (squeeze (A2 vals)) of
        Inl e \<Rightarrow> Inl e
      | Inr a \<Rightarrow>
          (case bop2 (\<lambda>x y. fl_round F (x * y)) a alloc of
             Inl e \<Rightarrow> Inl e
           | Inr m \<Rightarrow> Inr (map (fl_sum F) m)))"

definition Auctioneer_fl ::
  "fmt \<Rightarrow> nat \<Rightarrow> nat \<Rightarrow> auct_params \<Rightarrow> mat \<Rightarrow> error + (mat \<times> vec)" where
  "Auctioneer_fl F bidders items p vals =
     (case auct_alloc_fl F bidders items p vals of
        Inl e \<Rightarrow> Inl e
      | Inr alloc \<Rightarrow>
          (case auct_pay_frac_fl F bidders p vals of
             Inl e \<Rightarrow> Inl e
           | Inr fracs \<Rightarrow>
               (case allocated_value_fl F vals alloc of
                  Inl e \<Rightarrow> Inl e
                | Inr s \<Rightarrow>
                    (case bop1 (\<lambda>x y. fl_round F (x * y)) fracs s of
                       Inl e \<Rightarrow> Inl e
                     | Inr pay \<Rightarrow>
                         if length pay = bidders then Inr (alloc, pay)
                         else Inl AssertionError))))"

definition Misreporter_fl :: "fmt \<Rightarrow> nat \<Rightarrow> nat \<Rightarrow> misr_params \<Rightarrow> mat \<Rightarrow> error + mat" where
  "Misreporter_fl F bidders items p vals =
     (case stack0 (map (\<lambda>i. misr_mlp p (ravel (permute_along_bidders vals i))) [0..<bidders]) of
        Inl e \<Rightarrow> Inl e
      | Inr misreports \<Rightarrow>
          if \<not> has_shape misreports bidders items then Inl AssertionError
          else Inr (map (map (sigmoid_fl F)) misreports))"

section \<open>Utilities and losses\<close>

text \<open>\<^verbatim>\<open>TPAL.utility\<close>: the allocated value minus the payment, for all bidders.\<close>

definition utility :: "mat \<Rightarrow> mat \<Rightarrow> vec \<Rightarrow> error + vec" where
  "utility vals alloc pay =
     (case allocated_value vals alloc of
        Inl e \<Rightarrow> Inl e
      | Inr s \<Rightarrow>
          (case bop1 (-) s pay of
             Inl e \<Rightarrow> Inl e
           | Inr utilities \<Rightarrow>
               if length utilities = length pay then Inr utilities else Inl AssertionError))"

text \<open>
  \<^verbatim>\<open>TPAL.misr_bidder_i\<close>: \<^verbatim>\<open>vals[:, 0:i]\<close>, \<^verbatim>\<open>misrs[:, i:i+1]\<close> and
  \<^verbatim>\<open>vals[:, i+1:]\<close>, concatenated along axis 1. The concatenation needs as many rows
  in \<open>misrs\<close> as in \<open>vals\<close>; the assertion compares the shape of the result with that of
  \<open>vals\<close>.
\<close>

definition misr_bidder_i :: "mat \<Rightarrow> mat \<Rightarrow> nat \<Rightarrow> error + mat" where
  "misr_bidder_i vals misrs i =
     (if length misrs \<noteq> length vals then Inl TypeError
      else
        let V_minus_i =
              map (\<lambda>(v, m). take i v @ take 1 (drop i m) @ drop (i + 1) v) (zip vals misrs)
        in if map length V_minus_i = map length vals then Inr V_minus_i
           else Inl AssertionError)"

text \<open>
  A loop that appends one result per index to a list and stops at the first exception.
\<close>

fun collect :: "(nat \<Rightarrow> error + 'a) \<Rightarrow> nat list \<Rightarrow> error + 'a list" where
  "collect f [] = Inr []"
| "collect f (i # rest) =
     (case f i of
        Inl e \<Rightarrow> Inl e
      | Inr x \<Rightarrow> (case collect f rest of Inl e \<Rightarrow> Inl e | Inr xs \<Rightarrow> Inr (x # xs)))"

text \<open>
  \<^verbatim>\<open>TPAL.misr_utility\<close>: the body of the loop for bidder \<open>i\<close>, then the loop and
  the final \<^verbatim>\<open>jnp.stack\<close>. The utilities have one entry per bidder (the auctioneer
  and \<open>utility\<close> assert it), so \<^verbatim>\<open>u_i[i]\<close> reads inside the vector.
\<close>

definition misr_utility_i ::
  "nat \<Rightarrow> nat \<Rightarrow> auct_params \<Rightarrow> mat \<Rightarrow> mat \<Rightarrow> nat \<Rightarrow> error + real" where
  "misr_utility_i bidders items ap misreports val_sample i =
     (case misr_bidder_i val_sample misreports i of
        Inl e \<Rightarrow> Inl e
      | Inr misr_i \<Rightarrow>
          if \<not> has_shape misr_i bidders items then Inl AssertionError
          else
            (case Auctioneer bidders items ap misr_i of
               Inl e \<Rightarrow> Inl e
             | Inr (alloc_m, pay_m) \<Rightarrow>
                 (case utility val_sample alloc_m pay_m of
                    Inl e \<Rightarrow> Inl e
                  | Inr u \<Rightarrow> Inr (u ! i))))"

definition misr_utility ::
  "nat \<Rightarrow> nat \<Rightarrow> auct_params \<Rightarrow> mat \<Rightarrow> mat \<Rightarrow> error + vec" where
  "misr_utility bidders items ap misreports val_sample =
     (case collect (misr_utility_i bidders items ap misreports val_sample) [0..<bidders] of
        Inl e \<Rightarrow> Inl e
      | Inr misr_utils \<Rightarrow> if misr_utils = [] then Inl ValueError else Inr misr_utils)"

text \<open>
  \<^verbatim>\<open>jnp.sqrt\<close> of a negative number is NaN, and NaN spreads through the arithmetic
  that follows: \<open>None\<close> stands for it.
\<close>

definition jnp_sqrt :: "real \<Rightarrow> real option" where
  "jnp_sqrt x = (if x < 0 then None else Some (sqrt x))"

text \<open>Line 321, on the total payment and the total regret.\<close>

definition loss_of :: "real \<Rightarrow> real \<Rightarrow> real option" where
  "loss_of total_pay total_regret =
     (case jnp_sqrt total_pay of
        None \<Rightarrow> None
      | Some sp \<Rightarrow>
          (case jnp_sqrt total_regret of
             None \<Rightarrow> None
           | Some sr \<Rightarrow> Some (- (sp - sr) + total_regret)))"

text \<open>\<^verbatim>\<open>TPAL.auct_loss\<close> and \<^verbatim>\<open>TPAL.misr_loss\<close>.\<close>

definition auct_loss ::
  "nat \<Rightarrow> nat \<Rightarrow> auct_params \<Rightarrow> misr_params \<Rightarrow> mat \<Rightarrow> error + real option" where
  "auct_loss bidders items ap mp val_sample =
     (case Auctioneer bidders items ap val_sample of
        Inl e \<Rightarrow> Inl e
      | Inr (alloc, pay) \<Rightarrow>
          (case Misreporter bidders items mp val_sample of
             Inl e \<Rightarrow> Inl e
           | Inr misreports \<Rightarrow>
               (case misr_utility bidders items ap misreports val_sample of
                  Inl e \<Rightarrow> Inl e
                | Inr u_misr \<Rightarrow>
                    (case utility val_sample alloc pay of
                       Inl e \<Rightarrow> Inl e
                     | Inr u_truth \<Rightarrow>
                         (case bop1 (-) u_misr u_truth of
                            Inl e \<Rightarrow> Inl e
                          | Inr d \<Rightarrow>
                              let regret = map relu d
                              in Inr (loss_of (sum_list pay) (sum_list regret)))))))"

definition misr_loss ::
  "nat \<Rightarrow> nat \<Rightarrow> misr_params \<Rightarrow> auct_params \<Rightarrow> mat \<Rightarrow> error + real" where
  "misr_loss bidders items mp ap val_sample =
     (case Misreporter bidders items mp val_sample of
        Inl e \<Rightarrow> Inl e
      | Inr misreports \<Rightarrow>
          (case misr_utility bidders items ap misreports val_sample of
             Inl e \<Rightarrow> Inl e
           | Inr u_misr \<Rightarrow> Inr (- sum_list u_misr)))"

section \<open>The sampler and the training loop\<close>


record tpal_cfg =
  cfg_bidders :: nat
  cfg_items :: nat
  cfg_net_width :: int
  cfg_net_depth :: int

record ('k, 'p, 'o, 'g) jax =
  PRNGKey :: "nat \<Rightarrow> 'k"
  split2 :: "'k \<Rightarrow> 'k \<times> 'k"
  split3 :: "'k \<Rightarrow> 'k \<times> 'k \<times> 'k"
  split4 :: "'k \<Rightarrow> 'k \<times> 'k \<times> 'k \<times> 'k"
  uniform :: "'k \<Rightarrow> nat \<Rightarrow> nat \<Rightarrow> mat"
  auct_init :: "tpal_cfg \<Rightarrow> 'k \<Rightarrow> mat list \<Rightarrow> 'p"
  misr_init :: "tpal_cfg \<Rightarrow> 'k \<Rightarrow> mat list \<Rightarrow> 'p"
  opt_init :: "'p \<Rightarrow> 'o"
  opt_update :: "'g \<Rightarrow> 'o \<Rightarrow> 'p \<Rightarrow> 'g \<times> 'o"
  apply_updates :: "'p \<Rightarrow> 'g \<Rightarrow> 'p"
  auct_value_and_grad :: "tpal_cfg \<Rightarrow> 'p \<Rightarrow> 'p \<Rightarrow> mat list \<Rightarrow> real \<times> 'g"
  misr_value_and_grad :: "tpal_cfg \<Rightarrow> 'p \<Rightarrow> 'p \<Rightarrow> mat list \<Rightarrow> real \<times> 'g"

text \<open>
  \<^verbatim>\<open>BidSampler\<close>. The attribute \<^verbatim>\<open>subkey\<close> exists once \<^verbatim>\<open>sample\<close> has run.
\<close>

record 'k BidSampler =
  bs_bidders :: nat
  bs_items :: nat
  bs_key :: 'k
  bs_subkey :: "'k option"

definition BidSampler_init :: "'k \<Rightarrow> nat \<Rightarrow> nat \<Rightarrow> 'k BidSampler" where
  "BidSampler_init rng bidders items =
     \<lparr>bs_bidders = bidders, bs_items = items, bs_key = rng, bs_subkey = None\<rparr>"

text \<open>\<^verbatim>\<open>jnp.stack(ms, axis=0)\<close> of matrices.\<close>

definition stack_mats :: "mat list \<Rightarrow> error + mat list" where
  "stack_mats ms =
     (case ms of
        [] \<Rightarrow> Inl ValueError
      | m # rest \<Rightarrow>
          if list_all (\<lambda>w. map length w = map length m) rest then Inr (m # rest)
          else Inl ValueError)"

text \<open>
  \<^verbatim>\<open>BidSampler.sample\<close>: the key is split and both attributes are assigned before the
  list is built, so they are updated also when \<^verbatim>\<open>jnp.stack\<close> raises.
  \<^verbatim>\<open>range(0, num_samples)\<close> is empty for a number below 1.
\<close>

definition sample ::
  "('k, 'p, 'o, 'g) jax \<Rightarrow> 'k BidSampler \<Rightarrow> int \<Rightarrow> (error + mat list) \<times> 'k BidSampler" where
  "sample J self num_samples =
     (let (key', subkey') = split2 J (bs_key self);
          self' = self\<lparr>bs_key := key', bs_subkey := Some subkey'\<rparr>
      in (stack_mats (map (\<lambda>_. uniform J subkey' (bs_bidders self') (bs_items self'))
                        [0..<nat num_samples]),
          self'))"

text \<open>\<^verbatim>\<open>TPALTuple\<close> and \<^verbatim>\<open>TPALState\<close>.\<close>

record 'a TPALTuple =
  auct :: 'a
  misr :: 'a

record ('p, 'o) TPALState =
  params :: "'p TPALTuple"
  opt_state :: "'o TPALTuple"

text \<open>
  \<^verbatim>\<open>TPAL.initial_state\<close> and \<^verbatim>\<open>TPAL.reinit_misr\<close>. Haiku's \<^verbatim>\<open>init\<close> runs the
  forward pass of the network on the sample it is given, of shape (1, bidders, items).
  With no bidder the list that \<^verbatim>\<open>Auctioneer.__call__\<close> (line 98) and
  \<^verbatim>\<open>Misreporter.__call__\<close> (line 169) hand to \<^verbatim>\<open>jnp.stack\<close> is empty, and
  \<^verbatim>\<open>jnp.stack\<close> raises \<open>ValueError\<close>; with at least one bidder the pass goes through.
\<close>

definition initial_state ::
  "('k, 'p, 'o, 'g) jax \<Rightarrow> tpal_cfg \<Rightarrow> 'k \<Rightarrow> mat list \<Rightarrow> error + ('p, 'o) TPALState" where
  "initial_state J self rng vals =
     (let (rng', rng_auct, rng_misr) = split3 J rng in
      if cfg_bidders self = 0 then Inl ValueError
      else
        let ps = \<lparr>auct = auct_init J self rng_auct vals, misr = misr_init J self rng_misr vals\<rparr>;
            os = \<lparr>auct = opt_init J (auct ps), misr = opt_init J (misr ps)\<rparr>
        in Inr \<lparr>params = ps, opt_state = os\<rparr>)"

definition reinit_misr ::
  "('k, 'p, 'o, 'g) jax \<Rightarrow> tpal_cfg \<Rightarrow> 'k \<Rightarrow> ('p, 'o) TPALState \<Rightarrow> mat list \<Rightarrow>
   error + ('p, 'o) TPALState" where
  "reinit_misr J self rng tpal_state vals =
     (let (rng', rng_misr) = split2 J rng in
      if cfg_bidders self = 0 then Inl ValueError
      else
        let ps = \<lparr>auct = auct (params tpal_state), misr = misr_init J self rng_misr vals\<rparr>;
            os = \<lparr>auct = auct (opt_state tpal_state), misr = opt_init J (misr ps)\<rparr>
        in Inr \<lparr>params = ps, opt_state = os\<rparr>)"

text \<open>
  \<^verbatim>\<open>TPAL.update_auct\<close> and \<^verbatim>\<open>TPAL.update_misr\<close>: the new state and the logged
  loss.
\<close>

definition update_auct ::
  "('k, 'p, 'o, 'g) jax \<Rightarrow> tpal_cfg \<Rightarrow> ('p, 'o) TPALState \<Rightarrow> mat list \<Rightarrow>
   ('p, 'o) TPALState \<times> real" where
  "update_auct J self tpal_state batch =
     (let (a_loss, auct_grads) =
            auct_value_and_grad J self (auct (params tpal_state)) (misr (params tpal_state)) batch;
          (auct_update, auct_opt_state) =
            opt_update J auct_grads (auct (opt_state tpal_state)) (auct (params tpal_state));
          auct_ps = apply_updates J (auct (params tpal_state)) auct_update
      in (\<lparr>params = \<lparr>auct = auct_ps, misr = misr (params tpal_state)\<rparr>,
           opt_state = \<lparr>auct = auct_opt_state, misr = misr (opt_state tpal_state)\<rparr>\<rparr>,
          a_loss))"

definition update_misr ::
  "('k, 'p, 'o, 'g) jax \<Rightarrow> tpal_cfg \<Rightarrow> ('p, 'o) TPALState \<Rightarrow> mat list \<Rightarrow>
   ('p, 'o) TPALState \<times> real" where
  "update_misr J self tpal_state batch =
     (let (m_loss, misr_grads) =
            misr_value_and_grad J self (misr (params tpal_state)) (auct (params tpal_state)) batch;
          (misr_update, misr_opt_state) =
            opt_update J misr_grads (misr (opt_state tpal_state)) (misr (params tpal_state));
          misr_ps = apply_updates J (misr (params tpal_state)) misr_update
      in (\<lparr>params = \<lparr>auct = auct (params tpal_state), misr = misr_ps\<rparr>,
           opt_state = \<lparr>auct = auct (opt_state tpal_state), misr = misr_opt_state\<rparr>\<rparr>,
          m_loss))"

text \<open>
  The state of the loop of \<^verbatim>\<open>training\<close>: the learner's state, the sampler, the local
  \<^verbatim>\<open>misr_log\<close> (unbound until the first misreporter update) and \<^verbatim>\<open>auct_log\<close>, and a
  record of the calls made so far, in order, which the code does not keep: it is there
  to state what a run does.
\<close>

datatype event =
  Sampled "mat list"
| Reinit
| MisrUpdate "mat list"
| AuctUpdate "mat list"
| Printed int real real

record ('k, 'p, 'o) loop_state =
  ls_tpal :: "('p, 'o) TPALState"
  ls_sampler :: "'k BidSampler"
  ls_misr_log :: "real option"
  ls_auct_log :: "real option"
  ls_calls :: "event list"

text \<open>The inner loop, \<^verbatim>\<open>for _ in range(0, misr_updates)\<close>, by the number of rounds left.\<close>

fun misr_rounds ::
  "('k, 'p, 'o, 'g) jax \<Rightarrow> tpal_cfg \<Rightarrow> mat list \<Rightarrow> nat \<Rightarrow> ('k, 'p, 'o) loop_state \<Rightarrow>
   ('k, 'p, 'o) loop_state" where
  "misr_rounds J tpal val_sample 0 st = st"
| "misr_rounds J tpal val_sample (Suc n) st =
     (let (ts, m_loss) = update_misr J tpal (ls_tpal st) val_sample
      in misr_rounds J tpal val_sample n
           (st\<lparr>ls_tpal := ts, ls_misr_log := Some m_loss,
               ls_calls := ls_calls st @ [MisrUpdate val_sample]\<rparr>))"

text \<open>
  An exception ends the run: the functions of the loop return either the exception with
  the calls made before it, or the state to go on with.
\<close>

type_synonym ('k, 'p, 'o) outcome = "error \<times> event list + ('k, 'p, 'o) loop_state"

text \<open>
  The reinitialisation at the head of a step. \<^verbatim>\<open>step % misr_reinit_iv\<close> raises for
  an interval of 0. The reinitialisation draws a sample of its own, of size 1.
\<close>

definition reinit_part ::
  "('k, 'p, 'o, 'g) jax \<Rightarrow> tpal_cfg \<Rightarrow> 'k \<Rightarrow> int \<Rightarrow> int \<Rightarrow> int \<Rightarrow> ('k, 'p, 'o) loop_state \<Rightarrow>
   ('k, 'p, 'o) outcome" where
  "reinit_part J tpal rng_misr_reinit misr_reinit_iv misr_reinit_lim step st =
     (if misr_reinit_iv = 0 then Inl (ZeroDivisionError, ls_calls st)
      else if step mod misr_reinit_iv = 0 \<and> step \<le> misr_reinit_lim
      then
        (case sample J (ls_sampler st) 1 of
           (Inl e, sampler') \<Rightarrow> Inl (e, ls_calls st)
         | (Inr one, sampler') \<Rightarrow>
             (case reinit_misr J tpal rng_misr_reinit (ls_tpal st) one of
                Inl e \<Rightarrow> Inl (e, ls_calls st @ [Sampled one])
              | Inr ts \<Rightarrow>
                  Inr (st\<lparr>ls_sampler := sampler', ls_tpal := ts,
                          ls_calls := ls_calls st @ [Sampled one, Reinit]\<rparr>)))
      else Inr st)"

text \<open>
  The logging at the end of a step. \<^verbatim>\<open>step % log_every\<close> raises when
  \<open>log_every\<close> is 0; reading \<^verbatim>\<open>misr_log\<close> raises when no misreporter update has
  assigned it.
\<close>

definition log_part :: "int \<Rightarrow> int \<Rightarrow> ('k, 'p, 'o) loop_state \<Rightarrow> ('k, 'p, 'o) outcome" where
  "log_part log_every step st =
     (if log_every = 0 then Inl (ZeroDivisionError, ls_calls st)
      else if step mod log_every = 0
      then
        (case ls_misr_log st of
           None \<Rightarrow> Inl (UnboundLocalError, ls_calls st)
         | Some m_loss \<Rightarrow>
             (case ls_auct_log st of
                None \<Rightarrow> Inl (UnboundLocalError, ls_calls st)
              | Some a_loss \<Rightarrow>
                  Inr (st\<lparr>ls_calls := ls_calls st @ [Printed step a_loss m_loss]\<rparr>)))
      else Inr st)"

text \<open>The body of the loop of \<^verbatim>\<open>training\<close>, lines 429 to 457.\<close>

definition train_step ::
  "('k, 'p, 'o, 'g) jax \<Rightarrow> tpal_cfg \<Rightarrow> 'k \<Rightarrow> int \<Rightarrow> int \<Rightarrow> int \<Rightarrow> int \<Rightarrow> int \<Rightarrow> int \<Rightarrow>
   ('k, 'p, 'o) loop_state \<Rightarrow> ('k, 'p, 'o) outcome" where
  "train_step J tpal rng_misr_reinit log_every misr_updates misr_reinit_iv misr_reinit_lim
     batch_size step st =
     (case sample J (ls_sampler st) batch_size of
        (Inl e, sampler') \<Rightarrow> Inl (e, ls_calls st)
      | (Inr val_sample, sampler') \<Rightarrow>
          let st1 = st\<lparr>ls_sampler := sampler', ls_calls := ls_calls st @ [Sampled val_sample]\<rparr>
          in (case reinit_part J tpal rng_misr_reinit misr_reinit_iv misr_reinit_lim step st1 of
                Inl ex \<Rightarrow> Inl ex
              | Inr st2 \<Rightarrow>
                  let st3 = misr_rounds J tpal val_sample (nat misr_updates) st2;
                      (ts, a_loss) = update_auct J tpal (ls_tpal st3) val_sample;
                      st4 = st3\<lparr>ls_tpal := ts, ls_auct_log := Some a_loss,
                                ls_calls := ls_calls st3 @ [AuctUpdate val_sample]\<rparr>
                  in log_part log_every step st4))"

text \<open>\<^verbatim>\<open>for step in range(num_steps)\<close>: the steps left, stopping at an exception.\<close>

fun train_loop ::
  "('k, 'p, 'o, 'g) jax \<Rightarrow> tpal_cfg \<Rightarrow> 'k \<Rightarrow> int \<Rightarrow> int \<Rightarrow> int \<Rightarrow> int \<Rightarrow> int \<Rightarrow> int list \<Rightarrow>
   ('k, 'p, 'o) loop_state \<Rightarrow> ('k, 'p, 'o) outcome" where
  "train_loop J tpal rng_misr_reinit log_every misr_updates misr_reinit_iv misr_reinit_lim
     batch_size [] st = Inr st"
| "train_loop J tpal rng_misr_reinit log_every misr_updates misr_reinit_iv misr_reinit_lim
     batch_size (step # rest) st =
     (case train_step J tpal rng_misr_reinit log_every misr_updates misr_reinit_iv
             misr_reinit_lim batch_size step st of
        Inl ex \<Rightarrow> Inl ex
      | Inr st' \<Rightarrow>
          train_loop J tpal rng_misr_reinit log_every misr_updates misr_reinit_iv
            misr_reinit_lim batch_size rest st')"

text \<open>
  \<^verbatim>\<open>training\<close>, from the top-level key to the end of the loop: the exception raised
  and the calls made before it, or the state of the loop at the end, which holds the
  learner's state the function returns. \<^verbatim>\<open>num_steps // 100\<close> is the floor division
  of \<^typ>\<open>int\<close>, and \<^verbatim>\<open>range(num_steps)\<close> is the list \<open>[0..num_steps - 1]\<close>.
\<close>

definition training ::
  "('k, 'p, 'o, 'g) jax \<Rightarrow> int \<Rightarrow> int \<Rightarrow> int \<Rightarrow> int \<Rightarrow> int \<Rightarrow> nat \<Rightarrow> nat \<Rightarrow> int \<Rightarrow> int \<Rightarrow>
   ('k, 'p, 'o) outcome" where
  "training J num_steps misr_updates misr_reinit_iv misr_reinit_lim batch_size bidders items
     net_width net_depth =
     (let log_every = num_steps div 100;
          tpal = \<lparr>cfg_bidders = bidders, cfg_items = items, cfg_net_width = net_width,
                  cfg_net_depth = net_depth\<rparr>;
          rng = PRNGKey J 1729;
          (rng', rng_sampler, rng_state_init, rng_misr_reinit) = split4 J rng;
          sampler = BidSampler_init rng_sampler bidders items
      in case sample J sampler 1 of
           (Inl e, sampler') \<Rightarrow> Inl (e, [])
         | (Inr one, sampler') \<Rightarrow>
             (case initial_state J tpal rng_state_init one of
                Inl e \<Rightarrow> Inl (e, [Sampled one])
              | Inr tpal_state \<Rightarrow>
                  train_loop J tpal rng_misr_reinit log_every misr_updates misr_reinit_iv
                    misr_reinit_lim batch_size [0..num_steps - 1]
                    \<lparr>ls_tpal = tpal_state, ls_sampler = sampler',
                     ls_misr_log = None, ls_auct_log = None, ls_calls = [Sampled one]\<rparr>))"

section \<open>What the statements speak of\<close>

text \<open>
  A Haiku perceptron built with output sizes ending in \<open>k\<close> maps a vector of the input
  size \<open>n\<close> it was initialised with to a vector of length \<open>k\<close>. The auctioneer's three
  perceptrons are built with the input size \<open>bidders * items\<close> and the last layers
  \<open>items\<close>, \<open>items\<close> and 1 (lines 77 to 84), the misreporter's with last layer \<open>items\<close>
  (lines 150 to 158). Parameters exist for at least one bidder only: Haiku initialises
  them by running the forward pass, and with no bidder \<^verbatim>\<open>jnp.stack\<close> raises there on
  the empty list, as \<open>stack0\<close> and \<open>stack1\<close> do.
\<close>

definition mlp_out :: "(vec \<Rightarrow> vec) \<Rightarrow> nat \<Rightarrow> nat \<Rightarrow> bool" where
  "mlp_out f n k = (\<forall>xs. length xs = n \<longrightarrow> length (f xs) = k)"

definition auct_params_ok :: "nat \<Rightarrow> nat \<Rightarrow> auct_params \<Rightarrow> bool" where
  "auct_params_ok bidders items p =
     (mlp_out (alloc_prob p) (bidders * items) items \<and>
      mlp_out (alloc_which p) (bidders * items) items \<and>
      mlp_out (pay_mlp p) (bidders * items) 1)"

definition misr_params_ok :: "nat \<Rightarrow> nat \<Rightarrow> misr_params \<Rightarrow> bool" where
  "misr_params_ok bidders items p = mlp_out (misr_mlp p) (bidders * items) items"

text \<open>The sum of column \<open>j\<close> of a matrix: over all bidders, for item \<open>j\<close>.\<close>

definition col_sum :: "mat \<Rightarrow> nat \<Rightarrow> real" where
  "col_sum m j = sum_list (map (\<lambda>r. r ! j) m)"

text \<open>The fractions of lines 115 to 129, one per index \<open>i\<close> below \<open>bidders\<close>.\<close>

definition pay_fracs :: "nat \<Rightarrow> auct_params \<Rightarrow> mat \<Rightarrow> vec" where
  "pay_fracs bidders p vals =
     map (\<lambda>i. sigmoid (hd (pay_mlp p (ravel (permute_along_bidders vals i))))) [0..<bidders]"



text \<open>
  What the bounds in a number format need of it: the rounding is monotone on the
  nonnegative numbers and keeps 0 and 1; \<^verbatim>\<open>exp\<close> returns a nonnegative number of the
  format, and 1 at 0; the sum of nonnegative numbers of the format is at least each of
  them. Both \<open>float32\<close> and \<open>exact\<close> are such formats (\<open>float32_ok\<close>, \<open>exact_ok\<close>).
\<close>

definition fmt_ok :: "fmt \<Rightarrow> bool" where
  "fmt_ok F =
     ((\<forall>x y. 0 \<le> x \<and> x \<le> y \<longrightarrow> fl_round F x \<le> fl_round F y) \<and>
      fl_round F 0 = 0 \<and> fl_round F 1 = 1 \<and>
      (\<forall>x. 0 \<le> fl_exp F x \<and> fl_round F (fl_exp F x) = fl_exp F x) \<and>
      fl_exp F 0 = 1 \<and>
      (\<forall>xs. list_all (\<lambda>x. 0 \<le> x \<and> fl_round F x = x) xs \<longrightarrow>
            list_all (\<lambda>x. x \<le> fl_sum F xs) xs))"

text \<open>
  The accuracy of a format: on the nonnegative numbers the rounding is at most
  \<open>(1 + e) * x + h\<close>, and the sum of \<open>n\<close> nonnegative numbers of the format is at
  least \<open>(1 - e) ^ n\<close> times their exact sum, minus \<open>n * h\<close> (each term goes through
  at most \<open>n\<close> roundings, in any order of the additions). Binary32 has the relative
  error \<open>e = 2 ^ (- 24)\<close> and, on subnormal results, the absolute error
  \<open>h = 2 ^ (- 150)\<close> (\<open>float32_accurate\<close>); the statements ask for \<open>h = 2 ^ (- 126)\<close>
  only, which also holds when subnormal results are flushed to zero.
\<close>

definition fmt_accurate :: "fmt \<Rightarrow> real \<Rightarrow> real \<Rightarrow> bool" where
  "fmt_accurate F e h =
     (0 \<le> e \<and> e < 1 \<and> 0 \<le> h \<and>
      (\<forall>x. 0 \<le> x \<longrightarrow> fl_round F x \<le> (1 + e) * x + h) \<and>
      (\<forall>xs. list_all (\<lambda>x. 0 \<le> x \<and> fl_round F x = x) xs \<longrightarrow>
            (1 - e) ^ length xs * sum_list xs - real (length xs) * h \<le> fl_sum F xs))"


text \<open>
  Parameters for the examples. The networks whose weights and biases are all 0 output 0
  on every input. The networks whose last layers have weights 0 and a bias of 100
  output 100. A perceptron of two hidden layers whose weights copy the first \<open>k\<close>
  inputs outputs, in float32, the \<^verbatim>\<open>tanh\<close> of the \<^verbatim>\<open>tanh\<close> of each.
\<close>

definition saturated_auct :: "nat \<Rightarrow> auct_params" where
  "saturated_auct items =
     \<lparr>alloc_prob = (\<lambda>_. replicate items 100), alloc_which = (\<lambda>_. replicate items 0),
      pay_mlp = (\<lambda>_. [0])\<rparr>"

definition saturated_misr :: "nat \<Rightarrow> misr_params" where
  "saturated_misr items = \<lparr>misr_mlp = (\<lambda>_. replicate items 100)\<rparr>"

definition copy_net :: "nat \<Rightarrow> vec \<Rightarrow> vec" where
  "copy_net k xs = map (\<lambda>x. float32_round (tanh (float32_round (tanh x)))) (take k xs)"

definition copy_auct :: "nat \<Rightarrow> auct_params" where
  "copy_auct items =
     \<lparr>alloc_prob = copy_net items, alloc_which = copy_net items, pay_mlp = copy_net 1\<rparr>"

definition copy_misr :: "nat \<Rightarrow> misr_params" where
  "copy_misr items = \<lparr>misr_mlp = copy_net items\<rparr>"

definition zero_auct :: "nat \<Rightarrow> auct_params" where
  "zero_auct items =
     \<lparr>alloc_prob = (\<lambda>_. replicate items 0), alloc_which = (\<lambda>_. replicate items 0),
      pay_mlp = (\<lambda>_. [0])\<rparr>"

definition zero_misr :: "nat \<Rightarrow> misr_params" where
  "zero_misr items = \<lparr>misr_mlp = (\<lambda>_. replicate items 0)\<rparr>"

text \<open>
  Operations for the examples: keys are numbers, a split of \<open>k\<close> gives \<open>2 * k\<close> and
  \<open>2 * k + 1\<close>, every entry drawn from key \<open>k\<close> is \<open>1 / (k + 2)\<close>, parameters and
  optimizer states count the updates applied to them.
\<close>

definition example_jax :: "(nat, nat, nat, unit) jax" where
  "example_jax =
     \<lparr>PRNGKey = (\<lambda>seed. seed),
      split2 = (\<lambda>k. (2 * k, 2 * k + 1)),
      split3 = (\<lambda>k. (3 * k, 3 * k + 1, 3 * k + 2)),
      split4 = (\<lambda>k. (4 * k, 4 * k + 1, 4 * k + 2, 4 * k + 3)),
      uniform = (\<lambda>k b n. replicate b (replicate n (1 / (real k + 2)))),
      auct_init = (\<lambda>c k vals. 0),
      misr_init = (\<lambda>c k vals. 0),
      opt_init = (\<lambda>p. 0),
      opt_update = (\<lambda>g s p. (g, Suc s)),
      apply_updates = (\<lambda>p g. Suc p),
      auct_value_and_grad = (\<lambda>c a m batch. (0, ())),
      misr_value_and_grad = (\<lambda>c m a batch. (0, ()))\<rparr>"

text \<open>
  What the claims say in their own words, to compare the code with: bidder \<open>i\<close>'s
  allocated value \<open>sum_j vals[i,j] * alloc[i,j]\<close>, and the profile in which only row
  \<open>i\<close> of \<open>vals\<close> is replaced by row \<open>i\<close> of the misreports.
\<close>

definition spec_allocated_value :: "mat \<Rightarrow> mat \<Rightarrow> nat \<Rightarrow> real" where
  "spec_allocated_value vals alloc i =
     (\<Sum>j\<leftarrow>[0..<length (vals ! i)]. vals ! i ! j * alloc ! i ! j)"

definition spec_misr_profile :: "mat \<Rightarrow> mat \<Rightarrow> nat \<Rightarrow> mat" where
  "spec_misr_profile vals misrs i = vals[i := misrs ! i]"

text \<open>
  The permuted view as the comment above \<^verbatim>\<open>permute_along_bidders\<close> words it,
  \<^verbatim>\<open>B = [b_i, b_0, ..., b_i-1, b_i+1, ..., b_n]\<close>: row \<open>i\<close> moves to the front.
\<close>

definition spec_permute :: "mat \<Rightarrow> nat \<Rightarrow> mat" where
  "spec_permute B i = B ! i # take i B @ drop (i + 1) B"

text \<open>Counting the calls of one kind in a record of calls.\<close>

definition misr_update_count :: "event list \<Rightarrow> nat" where
  "misr_update_count es = length (filter (\<lambda>e. case e of MisrUpdate b \<Rightarrow> True | _ \<Rightarrow> False) es)"

definition auct_update_count :: "event list \<Rightarrow> nat" where
  "auct_update_count es = length (filter (\<lambda>e. case e of AuctUpdate b \<Rightarrow> True | _ \<Rightarrow> False) es)"

definition reinit_count :: "event list \<Rightarrow> nat" where
  "reinit_count es = length (filter (\<lambda>e. case e of Reinit \<Rightarrow> True | _ \<Rightarrow> False) es)"

text \<open>
  Bidder \<open>i\<close>'s utility from a misreport as the claims word it: the auction is run on
  \<open>spec_misr_profile\<close>, and the bidder's utility is taken at the true valuations.
\<close>

definition spec_misr_utility_i ::
  "nat \<Rightarrow> nat \<Rightarrow> auct_params \<Rightarrow> mat \<Rightarrow> mat \<Rightarrow> nat \<Rightarrow> error + real" where
  "spec_misr_utility_i bidders items ap misreports val_sample i =
     (case Auctioneer bidders items ap (spec_misr_profile val_sample misreports i) of
        Inl e \<Rightarrow> Inl e
      | Inr (alloc_m, pay_m) \<Rightarrow>
          (case utility val_sample alloc_m pay_m of
             Inl e \<Rightarrow> Inl e
           | Inr u \<Rightarrow> Inr (u ! i)))"

section \<open>Shapes, sigmoid and softmax\<close>

lemma sigmoid_pos: "0 < sigmoid x"
  by (simp add: sigmoid_def add_pos_pos)

lemma sigmoid_lt_1: "sigmoid x < 1"
  by (simp add: sigmoid_def add_pos_pos)

lemma upt_2: "[0..<2] = [0, 1]"
  by (simp add: upt_rec)

lemma has_shapeD: "has_shape m b k \<Longrightarrow> r \<in> set m \<Longrightarrow> length r = k"
  by (simp add: has_shape_def list_all_iff)

lemma length_ravel: "has_shape m b k \<Longrightarrow> length (ravel m) = b * k"
proof -
  assume h: "has_shape m b k"
  have "list_all (\<lambda>r. length r = k) m \<Longrightarrow> length (concat m) = length m * k" for m :: mat
    by (induction m) auto
  with h show ?thesis by (simp add: has_shape_def ravel_def)
qed

lemma permute_along_bidders_shape:
  "has_shape B b k \<Longrightarrow> has_shape (permute_along_bidders B i) b k"
  by (auto simp: has_shape_def permute_along_bidders_def list_all_iff)

lemma stack0_ok:
  "vs \<noteq> [] \<Longrightarrow> list_all (\<lambda>w. length w = k) vs \<Longrightarrow> stack0 vs = Inr vs"
  by (cases vs) (auto simp: stack0_def list_all_iff)

lemma softmax0_shape: "has_shape L b k \<Longrightarrow> has_shape (softmax0 L) b k"
  by (auto simp: has_shape_def softmax0_def list_all_iff)

lemma sum_exp_pos:
  fixes L :: mat
  shows "L \<noteq> [] \<Longrightarrow> 0 < sum_list (map (\<lambda>r. exp (r ! j)) L)"
proof (induction L)
  case Nil
  then show ?case by simp
next
  case (Cons a L)
  have "0 \<le> sum_list (map (\<lambda>r. exp (r ! j)) L)"
    by (rule sum_list_nonneg) auto
  then show ?case by (simp add: add_pos_nonneg)
qed

lemma softmax0_nth:
  "has_shape L b k \<Longrightarrow> i < b \<Longrightarrow> j < k \<Longrightarrow>
   softmax0 L ! i ! j = exp (L ! i ! j) / sum_list (map (\<lambda>r. exp (r ! j)) L)"
  by (auto simp: has_shape_def softmax0_def list_all_iff)

lemma sum_list_divide: 
  fixes f :: "'a \<Rightarrow> real"
  shows "sum_list (map (\<lambda>x. f x / d) xs) = sum_list (map f xs) / d"
  by (induction xs) (auto simp: add_divide_distrib)

lemma softmax0_col_sum:
  assumes "has_shape L b k" "0 < b" "j < k"
  shows "col_sum (softmax0 L) j = 1"
proof -
  have ne: "L \<noteq> []" using assms by (auto simp: has_shape_def)
  have "map (\<lambda>r. r ! j) (softmax0 L) = map (\<lambda>r. exp (r ! j) / sum_list (map (\<lambda>r. exp (r ! j)) L)) L"
    using assms by (auto simp: softmax0_def has_shape_def list_all_iff)
  then have "col_sum (softmax0 L) j = sum_list (map (\<lambda>r. exp (r ! j)) L) / sum_list (map (\<lambda>r. exp (r ! j)) L)"
    by (simp add: col_sum_def sum_list_divide)
  with sum_exp_pos[OF ne, of j] show ?thesis by simp
qed


lemma mlp_out_permute:
  "mlp_out f (b * k) n \<Longrightarrow> has_shape vals b k \<Longrightarrow>
   length (f (ravel (permute_along_bidders vals i))) = n"
  by (simp add: mlp_out_def length_ravel permute_along_bidders_shape)

lemma mlp_out_ravel:
  "mlp_out f (b * k) n \<Longrightarrow> has_shape vals b k \<Longrightarrow> length (f (ravel vals)) = n"
  by (simp add: mlp_out_def length_ravel)

lemma alloc_logits_shape:
  "mlp_out (alloc_which p) (b * k) k \<Longrightarrow> has_shape vals b k \<Longrightarrow>
   has_shape (alloc_logits b p vals) b k"
  by (simp add: alloc_logits_def has_shape_def list_all_iff mlp_out_permute[unfolded has_shape_def])

lemma auct_alloc_ok:
  assumes b: "0 < bidders" and v: "has_shape vals bidders items"
    and p: "auct_params_ok bidders items p"
  shows "auct_alloc bidders items p vals =
     Inr (map (\<lambda>row. map (\<lambda>j. sigmoid (alloc_prob p (ravel vals) ! j) * row ! j) [0..<items])
            (softmax0 (alloc_logits bidders p vals)))"
proof -
  have la: "length (alloc_prob p (ravel vals)) = items"
    using p v mlp_out_ravel[of "alloc_prob p" bidders items items vals]
    by (simp add: auct_params_ok_def)
  have sh: "has_shape (alloc_logits bidders p vals) bidders items"
    using p v by (simp add: auct_params_ok_def alloc_logits_shape)
  have ne: "alloc_logits bidders p vals \<noteq> []"
    using b by (simp add: alloc_logits_def)
  have st: "stack0 (alloc_logits bidders p vals) = Inr (alloc_logits bidders p vals)"
    using sh ne by (intro stack0_ok[where k = items]) (simp_all add: has_shape_def)
  have sm: "has_shape (softmax0 (alloc_logits bidders p vals)) bidders items"
    using sh by (rule softmax0_shape)
  have s2: "has_shape (map (\<lambda>row. map (\<lambda>j. map sigmoid (alloc_prob p (ravel vals)) ! j * row ! j) [0..<items])
            (softmax0 (alloc_logits bidders p vals))) bidders items"
    using sm by (simp add: has_shape_def list_all_iff)
  have eq: "map (\<lambda>row. map (\<lambda>j. map sigmoid (alloc_prob p (ravel vals)) ! j * row ! j) [0..<items])
            (softmax0 (alloc_logits bidders p vals)) =
        map (\<lambda>row. map (\<lambda>j. sigmoid (alloc_prob p (ravel vals) ! j) * row ! j) [0..<items])
            (softmax0 (alloc_logits bidders p vals))"
    using la by simp
  have "auct_alloc bidders items p vals =
     Inr (map (\<lambda>row. map (\<lambda>j. map sigmoid (alloc_prob p (ravel vals)) ! j * row ! j) [0..<items])
            (softmax0 (alloc_logits bidders p vals)))"
    unfolding auct_alloc_def Let_def
    using la st sm s2 by (simp add: alloc_logits_def[symmetric])
  then show ?thesis by (simp only: eq)
qed


lemma nth0_hd: "length a = Suc 0 \<Longrightarrow> a ! 0 = hd a"
  by (cases a) auto

lemma stack1_len1:
  "vs \<noteq> [] \<Longrightarrow> list_all (\<lambda>w. length w = 1) vs \<Longrightarrow> stack1 vs = Inr [map hd vs]"
  by (cases vs) (auto simp: stack1_def list_all_iff nth0_hd)

lemma auct_pay_frac_ok:
  assumes b: "0 < bidders" and v: "has_shape vals bidders items"
    and p: "mlp_out (pay_mlp p) (bidders * items) 1"
  shows "auct_pay_frac bidders p vals =
     Inr (map (\<lambda>i. sigmoid (hd (pay_mlp p (ravel (permute_along_bidders vals i))))) [0..<bidders])"
proof -
  let ?outs = "map (\<lambda>i. map sigmoid (pay_mlp p (ravel (permute_along_bidders vals i)))) [0..<bidders]"
  let ?row = "map (\<lambda>i. sigmoid (hd (pay_mlp p (ravel (permute_along_bidders vals i))))) [0..<bidders]"
  have len: "length (pay_mlp p (ravel (permute_along_bidders vals i))) = 1" for i
    using mlp_out_permute[OF p v] by simp
  have ne: "?outs \<noteq> []" using b by simp
  have all1: "list_all (\<lambda>w. length w = 1) ?outs"
    using len by (simp add: list_all_iff)
  have hd_eq: "map hd ?outs = ?row"
  proof -
    have "hd (map sigmoid (pay_mlp p (ravel (permute_along_bidders vals i)))) =
          sigmoid (hd (pay_mlp p (ravel (permute_along_bidders vals i))))" for i
      using len[of i] by (cases "pay_mlp p (ravel (permute_along_bidders vals i))") simp_all
    then show ?thesis by simp
  qed
  have st: "stack1 ?outs = Inr [?row]"
    using stack1_len1[OF ne all1] hd_eq by simp
  have lr: "length ?row = bidders" by simp
  show ?thesis
  proof (cases "bidders = 1")
    case True
    then have "?row = [hd ?row]" by (simp add: upt_rec)
    then show ?thesis
      unfolding auct_pay_frac_def st using True lr
      by (simp add: assert_vec_def Let_def del: length_map map_map)
  next
    case False
    then show ?thesis
      unfolding auct_pay_frac_def st using lr
      by (simp add: assert_vec_def Let_def del: map_map)
  qed
qed

lemma ncols_Cons: "ncols (r # m) = length r"
  by (simp add: ncols_def)

lemma ncols_shape: "has_shape m b k \<Longrightarrow> 0 < b \<Longrightarrow> ncols m = k"
  by (cases m) (auto simp: has_shape_def ncols_def)

lemma nth_shape: "has_shape m b k \<Longrightarrow> i < b \<Longrightarrow> length (m ! i) = k"
  by (auto simp: has_shape_def list_all_length)

lemma allocated_value_ok:
  assumes b: "0 < b" and v: "has_shape vals b k" and a: "has_shape alloc b k"
  shows "allocated_value vals alloc =
     Inr (if k = 1 \<and> b \<noteq> 1
          then map (\<lambda>i. sum_list (map (\<lambda>j. vals ! j ! 0 * alloc ! i ! 0) [0..<b])) [0..<b]
          else map (\<lambda>i. sum_list (map (\<lambda>j. vals ! i ! j * alloc ! i ! j) [0..<k])) [0..<b])"
proof -
  have lv: "length vals = b" and la: "length alloc = b"
    using v a by (simp_all add: has_shape_def)
  have cv: "ncols vals = k" and ca: "ncols alloc = k"
    using v a b by (simp_all add: ncols_shape)
  consider (one) "b = 1" "k = 1" | (row) "b = 1" "k \<noteq> 1" | (col) "b \<noteq> 1" "k = 1"
    | (gen) "b \<noteq> 1" "k \<noteq> 1" by blast
  then show ?thesis
  proof cases
    case one
    then obtain x where vx: "vals = [[x]]"
      using v by (cases vals; cases "hd vals") (auto simp: has_shape_def)
    show ?thesis
      using one la ca unfolding vx
      by (simp add: allocated_value_def mul_arr_mat_def bop2_def bcompat_def bdim_def
          bidx_def sum_axis1_def ncols_def)
  next
    case row
    then obtain r where vx: "vals = [r]" and lr: "length r = k"
      using v by (cases vals) (auto simp: has_shape_def)
    show ?thesis
      using row la ca lr unfolding vx
      by (simp add: allocated_value_def mul_arr_mat_def bop2_def bcompat_def bdim_def
          bidx_def sum_axis1_def ncols_def)
  next
    case col
    have hd0: "hd (vals ! j) = vals ! j ! 0" if "j < b" for j
      using that nth_shape[OF v that] col by (simp add: nth0_hd)
    have eqm: "(\<Sum>j\<leftarrow>[0..<b]. map hd vals ! j * c) = (\<Sum>j\<leftarrow>[0..<b]. vals ! j ! 0 * c)" for c
    proof -
      have "map (\<lambda>j. map hd vals ! j * c) [0..<b] = map (\<lambda>j. vals ! j ! 0 * c) [0..<b]"
        by (rule map_cong) (simp_all add: hd0 lv)
      then show ?thesis by (simp only:)
    qed
    show ?thesis
      using col lv la cv ca b
      by (simp add: allocated_value_def mul_arr_mat_def bop2_def bcompat_def bdim_def
          bidx_def sum_axis1_def eqm ncols_Cons)
  next
    case gen
    show ?thesis
      using gen lv la cv ca
      by (simp add: allocated_value_def mul_arr_mat_def bop2_def bcompat_def bdim_def
          bidx_def sum_axis1_def)
  qed
qed


lemma bop1_same_length:
  "length u = n \<Longrightarrow> length v = n \<Longrightarrow> bop1 f u v = Inr (map (\<lambda>i. f (u ! i) (v ! i)) [0..<n])"
  by (auto simp: bop1_def bcompat_def bdim_def bidx_def)

lemma allocated_value_length:
  assumes "0 < b" "has_shape vals b k" "has_shape alloc b k" "allocated_value vals alloc = Inr s"
  shows "length s = b"
  using assms(4) unfolding allocated_value_ok[OF assms(1-3)] by (auto split: if_splits)

lemma Auctioneer_ok:
  assumes b: "0 < bidders" and v: "has_shape vals bidders items"
    and p: "auct_params_ok bidders items p"
  shows "\<exists>alloc s. auct_alloc bidders items p vals = Inr alloc \<and>
           has_shape alloc bidders items \<and>
           allocated_value vals alloc = Inr s \<and> length s = bidders \<and>
           Auctioneer bidders items p vals =
             Inr (alloc, map (\<lambda>i. pay_fracs bidders p vals ! i * s ! i) [0..<bidders])"
proof -
  let ?alloc = "map (\<lambda>row. map (\<lambda>j. sigmoid (alloc_prob p (ravel vals) ! j) * row ! j) [0..<items])
            (softmax0 (alloc_logits bidders p vals))"
  have al: "auct_alloc bidders items p vals = Inr ?alloc"
    by (rule auct_alloc_ok[OF b v p])
  have "has_shape (softmax0 (alloc_logits bidders p vals)) bidders items"
    using p v by (simp add: auct_params_ok_def alloc_logits_shape softmax0_shape)
  then have sh: "has_shape ?alloc bidders items"
    by (simp add: has_shape_def list_all_iff)
  obtain s where s: "allocated_value vals ?alloc = Inr s"
    using allocated_value_ok[OF b v sh] by blast
  have ls: "length s = bidders"
    by (rule allocated_value_length[OF b v sh s])
  have pf: "auct_pay_frac bidders p vals = Inr (pay_fracs bidders p vals)"
    unfolding pay_fracs_def using p by (intro auct_pay_frac_ok[OF b v]) (simp add: auct_params_ok_def)
  have lf: "length (pay_fracs bidders p vals) = bidders"
    by (simp add: pay_fracs_def)
  have "Auctioneer bidders items p vals =
          Inr (?alloc, map (\<lambda>i. pay_fracs bidders p vals ! i * s ! i) [0..<bidders])"
    using bop1_same_length[OF lf ls, of "(*)"] by (simp add: Auctioneer_def al pf s)
  with al sh s ls show ?thesis by blast
qed


lemma softmax0_entry_bounds:
  assumes sh: "has_shape L b k" and i: "i < b" and j: "j < k"
  shows "0 < softmax0 L ! i ! j \<and> softmax0 L ! i ! j \<le> 1"
proof -
  let ?S = "sum_list (map (\<lambda>r. exp (r ! j)) L)"
  have ne: "L \<noteq> []" using sh i by (auto simp: has_shape_def)
  have pos: "0 < ?S" by (rule sum_exp_pos[OF ne])
  have mem: "exp (L ! i ! j) \<in> set (map (\<lambda>r. exp (r ! j)) L)"
    using sh i by (auto simp: has_shape_def)
  have le: "exp (L ! i ! j) \<le> ?S"
    by (rule member_le_sum_list[OF mem]) auto
  show ?thesis
    unfolding softmax0_nth[OF sh i j] using pos le by simp
qed

lemma col_sum_scaled:
  assumes sh: "has_shape m b k" and j: "j < k"
  shows "col_sum (map (\<lambda>row. map (\<lambda>j. c j * row ! j) [0..<k]) m) j = c j * col_sum m j"
proof -
  have "map (\<lambda>r. r ! j) (map (\<lambda>row. map (\<lambda>j. c j * row ! j) [0..<k]) m) =
        map (\<lambda>r. c j * r ! j) m"
    using j by simp
  then show ?thesis
    by (simp add: col_sum_def sum_list_const_mult del: map_map)
qed

section \<open>Rounding to binary32\<close>

text \<open>
  The rounding to the nearest integer is monotone and leaves the integers where they
  are. The rounding to binary32 is computed on the grid of the number's binade; it
  leaves the numbers of the grid where they are, and on the nonnegative numbers it is
  monotone and idempotent.
\<close>

lemma round_even_of_int: "round_even (of_int n) = n"
  by (simp add: round_even_def)

lemma round_even_floor: "\<lfloor>y\<rfloor> \<le> round_even y"
  by (simp add: round_even_def Let_def)

lemma round_even_ceil: "round_even y \<le> \<lfloor>y\<rfloor> + 1"
  by (simp add: round_even_def Let_def)

lemma round_even_mono:
  assumes "x \<le> y"
  shows "round_even x \<le> round_even y"
proof (cases "\<lfloor>x\<rfloor> = \<lfloor>y\<rfloor>")
  case True
  then show ?thesis using assms by (auto simp add: round_even_def Let_def)
next
  case False
  then have "\<lfloor>x\<rfloor> < \<lfloor>y\<rfloor>" using assms floor_mono[of x y] by linarith
  then show ?thesis using round_even_ceil[of x] round_even_floor[of y] by linarith
qed

lemma round_even_near: "\<bar>of_int (round_even y) - y\<bar> \<le> 1 / 2"
  unfolding round_even_def Let_def by (auto; linarith)

lemma floor_log2_unique:
  assumes "2 powr (of_int k) \<le> x" "x < 2 powr (of_int k + 1)"
  shows "\<lfloor>log 2 x\<rfloor> = k"
proof -
  have pos: "0 < x" using assms(1) powr_gt_zero[of 2 "of_int k"] by linarith
  have "of_int k \<le> log 2 x" using assms(1) pos by (simp add: le_log_iff)
  moreover have "log 2 x < of_int k + 1" using assms(2) pos by (simp add: log_less_iff)
  ultimately show ?thesis by linarith
qed

lemma floor_log2_bounds:
  assumes "0 < x"
  shows "2 powr (of_int \<lfloor>log 2 x\<rfloor>) \<le> x" "x < 2 powr (of_int \<lfloor>log 2 x\<rfloor> + 1)"
proof -
  show "2 powr (of_int \<lfloor>log 2 x\<rfloor>) \<le> x"
    using le_log_iff[of 2 x "of_int \<lfloor>log 2 x\<rfloor>"] assms by simp
  have "log 2 x < of_int \<lfloor>log 2 x\<rfloor> + 1" by linarith
  then show "x < 2 powr (of_int \<lfloor>log 2 x\<rfloor> + 1)"
    using log_less_iff[of 2 x "of_int \<lfloor>log 2 x\<rfloor> + 1"] assms by simp
qed

lemma float32_round_normal:
  assumes "2 powr (of_int k) \<le> x" "x < 2 powr (of_int k + 1)" "- 126 \<le> k"
  shows "float32_round x = 2 powr (of_int k - 23) * of_int (round_even (x / 2 powr (of_int k - 23)))"
proof -
  have pos: "0 < x" using assms(1) powr_gt_zero[of 2 "of_int k"] by linarith
  have "\<lfloor>log 2 x\<rfloor> = k" using floor_log2_unique[OF assms(1,2)] .
  then show ?thesis using pos assms(3) by (simp add: float32_round_def Let_def max_def)
qed

lemma float32_round_subnormal:
  assumes "0 < x" "x < 2 powr (- 126)"
  shows "float32_round x = 2 powr (- 149) * of_int (round_even (x / 2 powr (- 149)))"
proof -
  have "log 2 x < - 126" using log_less_iff[of 2 x "- 126"] assms by simp
  then have "\<lfloor>log 2 x\<rfloor> < - 126" by linarith
  then show ?thesis using assms(1) by (simp add: float32_round_def Let_def max_def)
qed

lemma float32_round_grid_normal:
  assumes "- 126 \<le> k" "2 ^ 23 \<le> n" "n < 2 ^ 24"
  shows "float32_round (2 powr (of_int k - 23) * of_int n) = 2 powr (of_int k - 23) * of_int n"
proof -
  let ?u = "2 powr (of_int k - 23) :: real"
  have u: "0 < ?u" by simp
  have k: "2 powr (of_int k) = ?u * 2 ^ 23" by (simp add: powr_diff)
  have k1: "2 powr (of_int k + 1) = ?u * 2 ^ 24" by (simp add: powr_diff powr_add)
  have n1: "(2::real) ^ 23 \<le> of_int n"
    using assms(2) of_int_le_iff[of "2 ^ 23" n, where ?'a = real] by simp
  have n2: "of_int n < (2::real) ^ 24"
    using assms(3) of_int_less_iff[of n "2 ^ 24", where ?'a = real] by simp
  have lo: "2 powr (of_int k) \<le> ?u * of_int n"
    unfolding k using n1 u by (simp only: mult_le_cancel_left_pos)
  have hi: "?u * of_int n < 2 powr (of_int k + 1)"
    unfolding k1 using n2 u by (simp only: mult_less_cancel_left_pos)
  have "float32_round (?u * of_int n) = ?u * of_int (round_even (?u * of_int n / ?u))"
    using float32_round_normal[OF lo hi assms(1)] .
  also have "?u * of_int n / ?u = of_int n" using u by simp
  finally show ?thesis by (simp only: round_even_of_int)
qed

lemma float32_round_pow2:
  assumes "- 126 \<le> k"
  shows "float32_round (2 powr (of_int k)) = 2 powr (of_int k)"
proof -
  have "(2::real) powr (of_int k) = 2 powr (of_int k - 23) * of_int (2 ^ 23)"
    by (simp add: powr_diff)
  then show ?thesis using float32_round_grid_normal[OF assms, of "2 ^ 23"] by simp
qed

lemma float32_round_grid_subnormal:
  assumes "0 \<le> n" "n < 2 ^ 23"
  shows "float32_round (2 powr (- 149) * of_int n) = 2 powr (- 149) * of_int n"
proof (cases "n = 0")
  case True
  then show ?thesis by (simp add: float32_round_def)
next
  case False
  let ?u = "2 powr (- 149) :: real"
  have u: "0 < ?u" by simp
  have n0: "(0::real) < of_int n" using assms(1) False by simp
  have n2: "of_int n < (2::real) ^ 23"
    using assms(2) of_int_less_iff[of n "2 ^ 23", where ?'a = real] by simp
  have pos: "0 < ?u * of_int n" using u n0 by simp
  have k: "2 powr (- 126) = ?u * 2 ^ 23" by (simp add: powr_minus field_simps)
  have hi: "?u * of_int n < 2 powr (- 126)"
    unfolding k using n2 u by (simp only: mult_less_cancel_left_pos)
  have "float32_round (?u * of_int n) = ?u * of_int (round_even (?u * of_int n / ?u))"
    using float32_round_subnormal[OF pos hi] .
  also have "?u * of_int n / ?u = of_int n" using u by simp
  finally show ?thesis by (simp only: round_even_of_int)
qed

lemma float32_cases:
  fixes x :: real
  assumes "0 < x"
  obtains (normal) k where "- 126 \<le> k" "2 powr (of_int k) \<le> x" "x < 2 powr (of_int k + 1)"
  | (subnormal) "x < 2 powr (- 126)"
proof (cases "x < 2 powr (- 126)")
  case True
  then show ?thesis using subnormal by blast
next
  case False
  then have "- 126 \<le> log 2 x" using le_log_iff[of 2 x "- 126"] assms by simp
  then have "- 126 \<le> \<lfloor>log 2 x\<rfloor>" by linarith
  then show ?thesis using normal[of "\<lfloor>log 2 x\<rfloor>"] floor_log2_bounds[OF assms] by blast
qed

lemma round_even_normal_range:
  assumes "2 powr (of_int k) \<le> x" "x < 2 powr (of_int k + 1)"
  shows "2 ^ 23 \<le> round_even (x / 2 powr (of_int k - 23))"
    and "round_even (x / 2 powr (of_int k - 23)) \<le> 2 ^ 24"
proof -
  let ?u = "2 powr (of_int k - 23) :: real"
  have u: "0 < ?u" by simp
  have k: "2 powr (of_int k) = ?u * 2 ^ 23" by (simp add: powr_diff)
  have k1: "2 powr (of_int k + 1) = ?u * 2 ^ 24" by (simp add: powr_diff powr_add)
  have "?u * 2 ^ 23 \<le> x" using assms(1) k by simp
  then have lo: "of_int (2 ^ 23) \<le> x / ?u" using u by (simp add: field_simps)
  have "x < ?u * 2 ^ 24" using assms(2) k1 by simp
  then have hi: "x / ?u \<le> of_int (2 ^ 24)" using u by (simp add: field_simps)
  show "2 ^ 23 \<le> round_even (x / ?u)"
    using round_even_mono[OF lo] by (simp only: round_even_of_int)
  show "round_even (x / ?u) \<le> 2 ^ 24"
    using round_even_mono[OF hi] by (simp only: round_even_of_int)
qed

lemma round_even_subnormal_range:
  assumes "0 < x" "x < 2 powr (- 126)"
  shows "0 \<le> round_even (x / 2 powr (- 149))"
    and "round_even (x / 2 powr (- 149)) \<le> 2 ^ 23"
proof -
  let ?u = "2 powr (- 149) :: real"
  have u: "0 < ?u" by simp
  have k: "2 powr (- 126) = ?u * 2 ^ 23" by (simp add: powr_minus field_simps)
  have lo: "of_int 0 \<le> x / ?u" using u assms(1) by simp
  have "x < ?u * 2 ^ 23" using assms(2) k by simp
  then have hi: "x / ?u \<le> of_int (2 ^ 23)" using u by (simp add: field_simps)
  show "0 \<le> round_even (x / ?u)"
    using round_even_mono[OF lo] by (simp only: round_even_of_int)
  show "round_even (x / ?u) \<le> 2 ^ 23"
    using round_even_mono[OF hi] by (simp only: round_even_of_int)
qed

lemma float32_round_normal_range:
  assumes "2 powr (of_int k) \<le> x" "x < 2 powr (of_int k + 1)" "- 126 \<le> k"
  shows "2 powr (of_int k) \<le> float32_round x" and "float32_round x \<le> 2 powr (of_int k + 1)"
proof -
  let ?u = "2 powr (of_int k - 23) :: real"
  let ?n = "round_even (x / ?u)"
  have u: "0 < ?u" by simp
  have k: "2 powr (of_int k) = ?u * 2 ^ 23" by (simp add: powr_diff)
  have k1: "2 powr (of_int k + 1) = ?u * 2 ^ 24" by (simp add: powr_diff powr_add)
  have r: "float32_round x = ?u * of_int ?n" using float32_round_normal[OF assms] .
  have n1: "(2::real) ^ 23 \<le> of_int ?n"
    using round_even_normal_range(1)[OF assms(1,2)] of_int_le_iff[of "2 ^ 23" ?n, where ?'a = real]
    by simp
  have n2: "of_int ?n \<le> (2::real) ^ 24"
    using round_even_normal_range(2)[OF assms(1,2)] of_int_le_iff[of ?n "2 ^ 24", where ?'a = real]
    by simp
  show "2 powr (of_int k) \<le> float32_round x"
    unfolding r k using n1 u by (simp only: mult_le_cancel_left_pos)
  show "float32_round x \<le> 2 powr (of_int k + 1)"
    unfolding r k1 using n2 u by (simp only: mult_le_cancel_left_pos)
qed

lemma float32_round_subnormal_range:
  assumes "0 < x" "x < 2 powr (- 126)"
  shows "0 \<le> float32_round x" and "float32_round x \<le> 2 powr (- 126)"
proof -
  let ?u = "2 powr (- 149) :: real"
  let ?n = "round_even (x / ?u)"
  have u: "0 < ?u" by simp
  have k: "2 powr (- 126) = ?u * 2 ^ 23" by (simp add: powr_minus field_simps)
  have r: "float32_round x = ?u * of_int ?n" using float32_round_subnormal[OF assms] .
  have n1: "(0::real) \<le> of_int ?n"
    using round_even_subnormal_range(1)[OF assms] by simp
  have n2: "of_int ?n \<le> (2::real) ^ 23"
    using round_even_subnormal_range(2)[OF assms] of_int_le_iff[of ?n "2 ^ 23", where ?'a = real]
    by simp
  show "0 \<le> float32_round x" unfolding r using n1 u by simp
  show "float32_round x \<le> 2 powr (- 126)"
    unfolding r k using n2 u by (simp only: mult_le_cancel_left_pos)
qed

lemma float32_round_nonneg: "0 \<le> x \<Longrightarrow> 0 \<le> float32_round x"
proof (cases "x = 0")
  case True
  then show ?thesis by (simp add: float32_round_def)
next
  case False
  assume "0 \<le> x"
  then have pos: "0 < x" using False by simp
  show ?thesis
  proof (cases rule: float32_cases[OF pos])
    case (1 k)
    have "0 < 2 powr (of_int k :: real)" by simp
    then show ?thesis using float32_round_normal_range(1)[OF 1(2,3,1)] by linarith
  next
    case 2
    then show ?thesis using float32_round_subnormal_range(1)[OF pos] by simp
  qed
qed

lemma float32_round_mono_pos:
  assumes "0 < x" "x \<le> y"
  shows "float32_round x \<le> float32_round y"
proof -
  have ypos: "0 < y" using assms by linarith
  show ?thesis
  proof (cases rule: float32_cases[OF assms(1)])
    case xs: 2
    show ?thesis
    proof (cases rule: float32_cases[OF ypos])
      case ys: 2
      have "x / 2 powr (- 149) \<le> y / 2 powr (- 149)"
        using assms(2) by (simp add: divide_right_mono)
      then have "round_even (x / 2 powr (- 149)) \<le> round_even (y / 2 powr (- 149))"
        by (rule round_even_mono)
      then have "2 powr (- 149) * of_int (round_even (x / 2 powr (- 149)))
                 \<le> 2 powr (- 149) * (of_int (round_even (y / 2 powr (- 149))) :: real)"
        by simp
      then show ?thesis
        using float32_round_subnormal[OF assms(1) xs] float32_round_subnormal[OF ypos ys]
        by simp
    next
      case ys: (1 k)
      have "(2::real) powr (- 126) \<le> 2 powr (of_int k)" using ys(1) by simp
      then show ?thesis
        using float32_round_subnormal_range(2)[OF assms(1) xs]
          float32_round_normal_range(1)[OF ys(2,3,1)] by linarith
    qed
  next
    case xn: (1 k)
    show ?thesis
    proof (cases rule: float32_cases[OF ypos])
      case ys: 2
      have "(2::real) powr (- 126) \<le> 2 powr (of_int k)" using xn(1) by simp
      then have False using xn(2) ys assms(2) by linarith
      then show ?thesis ..
    next
      case yn: (1 k')
      have "2 powr (of_int k :: real) < 2 powr (of_int k' + 1)"
        using xn(2) yn(3) assms(2) by linarith
      then have "(of_int k :: real) < of_int k' + 1" by simp
      then have kk: "k \<le> k'" by linarith
      show ?thesis
      proof (cases "k = k'")
        case True
        let ?u = "2 powr (of_int k - 23) :: real"
        have "x / ?u \<le> y / ?u" using assms(2) by (simp add: divide_right_mono)
        then have "round_even (x / ?u) \<le> round_even (y / ?u)" by (rule round_even_mono)
        then have "?u * of_int (round_even (x / ?u)) \<le> ?u * of_int (round_even (y / ?u))"
          by simp
        then show ?thesis
          using float32_round_normal[OF xn(2,3,1)] float32_round_normal[OF yn(2,3,1)] True
          by simp
      next
        case False
        then have "k + 1 \<le> k'" using kk by linarith
        then have "(of_int k :: real) + 1 \<le> of_int k'" by linarith
        then have "(2::real) powr (of_int k + 1) \<le> 2 powr (of_int k')" by simp
        then show ?thesis
          using float32_round_normal_range(2)[OF xn(2,3,1)]
            float32_round_normal_range(1)[OF yn(2,3,1)] by linarith
      qed
    qed
  qed
qed

lemma float32_round_mono:
  assumes "0 \<le> x" "x \<le> y"
  shows "float32_round x \<le> float32_round y"
proof (cases "x = 0")
  case True
  have "0 \<le> y" using assms by linarith
  then show ?thesis using True float32_round_nonneg[of y] by (simp add: float32_round_def)
next
  case False
  then have "0 < x" using assms(1) by simp
  then show ?thesis using float32_round_mono_pos assms(2) by blast
qed

lemma float32_round_idem:
  assumes "0 \<le> x"
  shows "float32_round (float32_round x) = float32_round x"
proof (cases "x = 0")
  case True
  then show ?thesis by (simp add: float32_round_def)
next
  case False
  then have pos: "0 < x" using assms by simp
  show ?thesis
  proof (cases rule: float32_cases[OF pos])
    case (1 k)
    let ?u = "2 powr (of_int k - 23) :: real"
    let ?n = "round_even (x / ?u)"
    have r: "float32_round x = ?u * of_int ?n" using float32_round_normal[OF 1(2,3,1)] .
    show ?thesis
    proof (cases "?n < 2 ^ 24")
      case True
      show ?thesis unfolding r
        using float32_round_grid_normal[OF 1(1) round_even_normal_range(1)[OF 1(2,3)] True] .
    next
      case False
      then have n: "?n = 2 ^ 24" using round_even_normal_range(2)[OF 1(2,3)] by linarith
      have "?u * of_int ?n = 2 powr (of_int (k + 1))"
        unfolding n by (simp add: powr_diff powr_add)
      moreover have "- 126 \<le> k + 1" using 1(1) by linarith
      ultimately show ?thesis unfolding r using float32_round_pow2[of "k + 1"] by simp
    qed
  next
    case 2
    let ?u = "2 powr (- 149) :: real"
    let ?n = "round_even (x / ?u)"
    have r: "float32_round x = ?u * of_int ?n" using float32_round_subnormal[OF pos 2] .
    show ?thesis
    proof (cases "?n < 2 ^ 23")
      case True
      show ?thesis unfolding r
        using float32_round_grid_subnormal[OF round_even_subnormal_range(1)[OF pos 2] True] .
    next
      case False
      then have n: "?n = 2 ^ 23" using round_even_subnormal_range(2)[OF pos 2] by linarith
      have "?u * of_int ?n = 2 powr (of_int (- 126))"
        unfolding n by (simp add: powr_minus field_simps)
      then show ?thesis unfolding r using float32_round_pow2[of "- 126"] by simp
    qed
  qed
qed

text \<open>
  Both formats keep what the bounds need: \<open>float32\<close>, where the sum from left to right
  of nonnegative floats is at least each of them, and \<open>exact\<close>. In the exact format the
  rounded sigmoid and softmax are those of the exact reading.
\<close>

lemma float32_round_0: "float32_round 0 = 0"
  by (simp add: float32_round_def)

lemma float32_round_1: "float32_round 1 = 1"
  using float32_round_pow2[of 0] by simp

lemma foldl_round_ge:
  assumes "list_all (\<lambda>x. 0 \<le> x \<and> float32_round x = x) xs" "0 \<le> a" "float32_round a = a"
  shows "a \<le> foldl (\<lambda>a x. float32_round (a + x)) a xs \<and>
         list_all (\<lambda>x. x \<le> foldl (\<lambda>a x. float32_round (a + x)) a xs) xs"
  using assms
proof (induction xs arbitrary: a)
  case Nil
  then show ?case by simp
next
  case (Cons x xs)
  let ?a' = "float32_round (a + x)"
  have x: "0 \<le> x" "float32_round x = x" and xs: "list_all (\<lambda>x. 0 \<le> x \<and> float32_round x = x) xs"
    using Cons.prems(1) by simp_all
  have a_le: "a \<le> ?a'" using float32_round_mono[of a "a + x"] Cons.prems(2,3) x(1) by simp
  have x_le: "x \<le> ?a'" using float32_round_mono[of x "a + x"] Cons.prems(2) x by simp
  have a'0: "0 \<le> ?a'" using a_le Cons.prems(2) by linarith
  have a'r: "float32_round ?a' = ?a'"
    using float32_round_idem[of "a + x"] Cons.prems(2) x(1) by simp
  have IH: "?a' \<le> foldl (\<lambda>a x. float32_round (a + x)) ?a' xs \<and>
            list_all (\<lambda>x. x \<le> foldl (\<lambda>a x. float32_round (a + x)) ?a' xs) xs"
    using Cons.IH[OF xs a'0 a'r] .
  show ?case using IH a_le x_le by simp
qed

lemma float32_ok: "fmt_ok float32"
  unfolding fmt_ok_def float32_def
  using float32_round_mono float32_round_0 float32_round_1 float32_round_nonneg
    float32_round_idem foldl_round_ge[of _ 0]
  by (simp add: float32_round_0)

lemma exact_ok: "fmt_ok exact"
proof -
  have "list_all (\<lambda>x. x \<le> sum_list xs) xs" if "list_all (\<lambda>x. 0 \<le> x) xs" for xs :: "real list"
    using that member_le_sum_list[of _ xs] by (simp add: list_all_iff)
  then show ?thesis by (simp add: fmt_ok_def exact_def)
qed

lemma sigmoid_fl_exact: "sigmoid_fl exact x = sigmoid x"
  by (simp add: sigmoid_fl_def exact_def sigmoid_def)

lemma softmax0_fl_exact: "softmax0_fl exact L = softmax0 L"
proof -
  have "exp (row ! j - m) / sum_list (map (\<lambda>r. exp (r ! j - m)) L) =
        exp (row ! j) / sum_list (map (\<lambda>r. exp (r ! j)) L)" for row :: vec and j m
  proof -
    have "sum_list (map (\<lambda>r. exp (r ! j - m)) L) = sum_list (map (\<lambda>r. exp (r ! j)) L) / exp m"
      by (simp add: exp_diff sum_list_divide)
    then show ?thesis by (simp add: exp_diff)
  qed
  then show ?thesis by (simp add: softmax0_fl_def softmax0_def exact_def Let_def)
qed

text \<open>
  The accuracy of binary32: a rounded nonnegative number is off by at most
  \<open>2 ^ (- 24)\<close> of the number plus \<open>2 ^ (- 150)\<close>, and the sum from left to right loses
  at most that much at every addition.
\<close>

lemma float32_round_error:
  assumes "0 \<le> x"
  shows "\<bar>float32_round x - x\<bar> \<le> x / 2 ^ 24 + 2 powr (- 150)"
proof (cases "x = 0")
  case True
  then show ?thesis by (simp add: float32_round_def)
next
  case False
  then have pos: "0 < x" using assms by simp
  show ?thesis
  proof (cases rule: float32_cases[OF pos])
    case (1 k)
    let ?u = "2 powr (of_int k - 23) :: real"
    have u: "0 < ?u" by simp
    have r: "float32_round x = ?u * of_int (round_even (x / ?u))"
      using float32_round_normal[OF 1(2,3,1)] .
    have "\<bar>float32_round x - x\<bar> = ?u * \<bar>of_int (round_even (x / ?u)) - x / ?u\<bar>"
    proof -
      have "float32_round x - x = ?u * (of_int (round_even (x / ?u)) - x / ?u)"
        unfolding r using u by (simp add: algebra_simps)
      then show ?thesis using u by (simp add: abs_mult)
    qed
    also have "\<dots> \<le> ?u * (1 / 2)"
      using round_even_near[of "x / ?u"] u by (intro mult_left_mono) simp_all
    also have "\<dots> = 2 powr (of_int k) / 2 ^ 24" by (simp add: powr_diff)
    also have "\<dots> \<le> x / 2 ^ 24" using 1(2) by (simp add: divide_right_mono)
    finally have "\<bar>float32_round x - x\<bar> \<le> x / 2 ^ 24" .
    moreover have "(0::real) \<le> 2 powr (- 150)" by simp
    ultimately show ?thesis by linarith
  next
    case 2
    let ?u = "2 powr (- 149) :: real"
    have u: "0 < ?u" by simp
    have r: "float32_round x = ?u * of_int (round_even (x / ?u))"
      using float32_round_subnormal[OF pos 2] .
    have "\<bar>float32_round x - x\<bar> = ?u * \<bar>of_int (round_even (x / ?u)) - x / ?u\<bar>"
    proof -
      have "float32_round x - x = ?u * (of_int (round_even (x / ?u)) - x / ?u)"
        unfolding r using u by (simp add: algebra_simps)
      then show ?thesis using u by (simp add: abs_mult)
    qed
    also have "\<dots> \<le> ?u * (1 / 2)"
      using round_even_near[of "x / ?u"] u by (intro mult_left_mono) simp_all
    also have "\<dots> = 2 powr (- 150)" by (simp add: powr_neg_numeral)
    finally have "\<bar>float32_round x - x\<bar> \<le> 2 powr (- 150)" .
    moreover have "0 \<le> x / 2 ^ 24" using assms by simp
    ultimately show ?thesis by linarith
  qed
qed

lemma foldl_round_lower:
  fixes e h :: real
  defines "e \<equiv> 1 / 2 ^ 24" and "h \<equiv> 2 powr (- 150)"
  assumes "list_all (\<lambda>x. 0 \<le> x) xs" "0 \<le> a"
  shows "(1 - e) ^ length xs * (a + sum_list xs) - real (length xs) * h
         \<le> foldl (\<lambda>a x. float32_round (a + x)) a xs"
  using assms(3,4)
proof (induction xs arbitrary: a)
  case Nil
  then show ?case by simp
next
  case (Cons x xs)
  let ?a' = "float32_round (a + x)"
  have x: "0 \<le> x" and xs: "list_all (\<lambda>x. 0 \<le> x) xs" using Cons.prems(1) by simp_all
  have ax: "0 \<le> a + x" using x Cons.prems(2) by simp
  have a'0: "0 \<le> ?a'" using float32_round_nonneg[OF ax] .
  have e01: "0 \<le> 1 - e" "1 - e \<le> 1" unfolding e_def by simp_all
  have h0: "0 \<le> h" unfolding h_def by simp
  have d: "(a + x) - ?a' \<le> (a + x) / 2 ^ 24 + 2 powr (- 150)"
    using float32_round_error[OF ax] by linarith
  have "(1 - 1 / 2 ^ 24) * y = y - y / 2 ^ 24" for y :: real
    by (simp add: left_diff_distrib)
  then have "(1 - e) * (a + x) = (a + x) - (a + x) / 2 ^ 24"
    unfolding e_def by (simp only:)
  then have lo: "(1 - e) * (a + x) - h \<le> ?a'"
    using d unfolding h_def by linarith
  have s0: "0 \<le> sum_list xs" using xs by (intro sum_list_nonneg) (simp add: list_all_iff)
  let ?p = "(1 - e) ^ length xs"
  have p01: "0 \<le> ?p" "?p \<le> 1"
    using e01 by (simp_all add: power_le_one)
  have IH: "?p * (?a' + sum_list xs) - real (length xs) * h
            \<le> foldl (\<lambda>a x. float32_round (a + x)) ?a' xs"
    using Cons.IH[OF xs a'0] .
  have "(1 - e) ^ length (x # xs) * (a + sum_list (x # xs)) - real (length (x # xs)) * h
        = ?p * ((1 - e) * (a + x) - h) + ?p * (1 - e) * sum_list xs + ?p * h
          - h - real (length xs) * h"
    by (simp add: algebra_simps)
  also have "\<dots> \<le> ?p * ?a' + ?p * sum_list xs - real (length xs) * h"
  proof -
    have "?p * ((1 - e) * (a + x) - h) \<le> ?p * ?a'"
      using lo p01(1) by (rule mult_left_mono)
    moreover have "?p * (1 - e) * sum_list xs \<le> ?p * sum_list xs"
    proof -
      have "?p * (1 - e) \<le> ?p * 1" using e01(2) p01(1) by (rule mult_left_mono)
      then show ?thesis using s0 by (simp add: mult_right_mono)
    qed
    moreover have "?p * h \<le> h" using mult_right_mono[OF p01(2) h0] by simp
    ultimately show ?thesis by linarith
  qed
  also have "\<dots> = ?p * (?a' + sum_list xs) - real (length xs) * h"
    by (simp add: algebra_simps)
  finally show ?case using IH by simp
qed

lemma fmt_accurateD:
  assumes "fmt_accurate F e h"
  shows "0 \<le> e" "e < 1" "0 \<le> h"
    and "0 \<le> x \<Longrightarrow> fl_round F x \<le> (1 + e) * x + h"
    and "list_all (\<lambda>x. 0 \<le> x \<and> fl_round F x = x) xs \<Longrightarrow>
         (1 - e) ^ length xs * sum_list xs - real (length xs) * h \<le> fl_sum F xs"
  using assms unfolding fmt_accurate_def by blast+

lemma float32_accurate: "fmt_accurate float32 (1 / 2 ^ 24) (2 powr (- 150))"
proof -
  have up: "float32_round x \<le> (1 + 1 / 2 ^ 24) * x + 2 powr (- 150)" if "0 \<le> x" for x
  proof -
    have "float32_round x - x \<le> x / 2 ^ 24 + 2 powr (- 150)"
      using float32_round_error[OF that] by linarith
    moreover have "(1 + 1 / 2 ^ 24) * x = x + x / 2 ^ 24" by (simp add: distrib_right)
    ultimately show ?thesis by linarith
  qed
  have sm: "(1 - 1 / 2 ^ 24) ^ length xs * sum_list xs - real (length xs) * 2 powr (- 150)
            \<le> foldl (\<lambda>a x. float32_round (a + x)) 0 xs"
    if "list_all (\<lambda>x. 0 \<le> x \<and> float32_round x = x) xs" for xs
  proof -
    have "list_all (\<lambda>x. 0 \<le> x) xs" using that by (simp add: list_all_iff)
    then show ?thesis using foldl_round_lower[of xs 0] by simp
  qed
  show ?thesis
    unfolding fmt_accurate_def float32_def using up sm by simp
qed

lemma exact_accurate: "fmt_accurate exact 0 0"
  by (simp add: fmt_accurate_def exact_def)

lemma fmt_accurate_weaken:
  assumes A: "fmt_accurate F e h" and e: "e \<le> e'" "e' < 1" and h: "h \<le> h'"
  shows "fmt_accurate F e' h'"
proof -
  have e0: "0 \<le> e" and h0: "0 \<le> h" using fmt_accurateD(1,3)[OF A] by simp_all
  have up: "fl_round F x \<le> (1 + e') * x + h'" if "0 \<le> x" for x
  proof -
    have "(1 + e) * x \<le> (1 + e') * x" using e(1) that by (simp add: mult_right_mono)
    then show ?thesis using fmt_accurateD(4)[OF A that] h by linarith
  qed
  have sm: "(1 - e') ^ length xs * sum_list xs - real (length xs) * h' \<le> fl_sum F xs"
    if xs: "list_all (\<lambda>x. 0 \<le> x \<and> fl_round F x = x) xs" for xs
  proof -
    have s0: "0 \<le> sum_list xs" using xs by (intro sum_list_nonneg) (simp add: list_all_iff)
    have "(1 - e') ^ length xs \<le> (1 - e) ^ length xs"
      using e by (intro power_mono) simp_all
    then have "(1 - e') ^ length xs * sum_list xs \<le> (1 - e) ^ length xs * sum_list xs"
      using s0 by (rule mult_right_mono)
    moreover have "real (length xs) * h \<le> real (length xs) * h'"
      using h by (simp add: mult_left_mono)
    ultimately show ?thesis using fmt_accurateD(5)[OF A xs] by linarith
  qed
  show ?thesis
    unfolding fmt_accurate_def using e0 e h0 h up sm by auto
qed

lemma float32_accuracy: "fmt_accurate float32 (1 / 2 ^ 24) (2 powr (- 126))"
  by (rule fmt_accurate_weaken[OF float32_accurate]) simp_all

lemma exact_accuracy: "fmt_accurate exact (1 / 2 ^ 24) (2 powr (- 126))"
  by (rule fmt_accurate_weaken[OF exact_accurate]) simp_all

text \<open>
  Values in binary32: \<open>exp (- 100)\<close> is below \<open>2 ^ (- 100)\<close>, so \<open>1 + exp (- 100)\<close>
  rounds to 1 and the sigmoid of 100 is exactly 1. The nearest float to \<open>1 / 3\<close> is
  \<open>11184811 / 2 ^ 25\<close>, above \<open>1 / 3\<close>, so the softmax of three equal logits has
  columns that sum to \<open>1 + 2 ^ (- 25)\<close>.
\<close>

lemma exp_minus_100: "exp (- 100 :: real) \<le> 2 powr (- 100)"
proof -
  have "(2::real) \<le> exp 1" using exp_ge_add_one_self[of "1::real"] by simp
  then have "exp (- 1 :: real) \<le> 1 / 2" by (simp add: exp_minus field_simps)
  then have "exp (- 1 :: real) ^ 100 \<le> (1 / 2) ^ 100"
    by (intro power_mono) simp_all
  moreover have "exp (- 100 :: real) = exp (- 1) ^ 100"
    using exp_of_nat_mult[of 100 "- 1 :: real"] by simp
  moreover have "(2::real) powr (- 100) = (1 / 2) ^ 100"
    by (simp add: powr_neg_numeral power_divide)
  ultimately show ?thesis by simp
qed

lemma float32_exp_minus_100:
  "0 \<le> float32_round (exp (- 100))" "float32_round (exp (- 100)) \<le> 2 powr (- 100)"
proof -
  show "0 \<le> float32_round (exp (- 100))" by (rule float32_round_nonneg) simp
  have "float32_round (exp (- 100)) \<le> float32_round (2 powr (- 100))"
    by (rule float32_round_mono) (simp_all add: exp_minus_100)
  then show "float32_round (exp (- 100)) \<le> 2 powr (- 100)"
    using float32_round_pow2[of "- 100"] by simp
qed

lemma float32_round_near_1:
  assumes "0 \<le> e" "e \<le> 2 powr (- 100)"
  shows "float32_round (1 + e) = 1"
proof -
  have "(2::real) powr (- 100) \<le> 1 / 67108864" by (simp add: powr_neg_numeral)
  then have e: "e \<le> 1 / 67108864" using assms(2) by linarith
  have hi: "float32_round (1 + 1 / 67108864) = 1"
    using float32_round_normal[of 0 "1 + 1 / 67108864"]
    by (simp add: round_even_def Let_def powr_neg_numeral)
  have "float32_round 1 \<le> float32_round (1 + e)"
    by (rule float32_round_mono) (simp_all add: assms(1))
  moreover have "float32_round (1 + e) \<le> float32_round (1 + 1 / 67108864)"
    by (rule float32_round_mono) (use assms(1) e in simp_all)
  ultimately show ?thesis using hi float32_round_1 by linarith
qed

lemma sigmoid_fl_float32_100: "sigmoid_fl float32 100 = 1"
proof -
  let ?e = "float32_round (exp (- 100))"
  have "?e \<le> 1" using float32_exp_minus_100(2) by (simp add: powr_neg_numeral)
  then have fin: "\<not> float32_max < ?e" by (simp add: float32_max_def)
  have "float32_round (1 + ?e) = 1"
    by (rule float32_round_near_1[OF float32_exp_minus_100])
  then show ?thesis using fin by (simp add: sigmoid_fl_def float32_def Let_def float32_round_1)
qed

lemma float32_round_2: "float32_round 2 = 2"
  using float32_round_pow2[of 1] by simp

lemma float32_round_3: "float32_round 3 = 3"
  using float32_round_grid_normal[of 1 "3 * 2 ^ 22"] by (simp add: powr_neg_numeral)

lemma float32_round_third: "float32_round (1 / 3) = 11184811 / 33554432"
  using float32_round_normal[of "- 2" "1 / 3"]
  by (simp add: round_even_def Let_def powr_neg_numeral)

lemma float32_round_third_again: "float32_round (11184811 / 33554432) = 11184811 / 33554432"
  using float32_round_grid_normal[of "- 2" 11184811] by (simp add: powr_neg_numeral)

lemma softmax0_fl_float32_equal_logits:
  "softmax0_fl float32 [[0, 0], [0, 0], [0, 0]] =
     [[11184811 / 33554432, 11184811 / 33554432],
      [11184811 / 33554432, 11184811 / 33554432],
      [11184811 / 33554432, 11184811 / 33554432]]"
  by (simp add: softmax0_fl_def float32_def Let_def upt_2 float32_round_0 float32_round_1
      float32_round_2 float32_round_3 float32_round_third)

section \<open>Bounds in a number format\<close>

text \<open>
  In a format that keeps \<open>fmt_ok\<close>, the rounded sigmoid and every entry of the rounded
  softmax lie between 0 and 1, both included. For the softmax: the row that holds the
  column's maximum has the unnormalized value \<open>exp 0 = 1\<close>, so the sum is at least 1 and
  at least every unnormalized value.
\<close>

lemma fmt_okD:
  assumes "fmt_ok F"
  shows "0 \<le> x \<Longrightarrow> x \<le> y \<Longrightarrow> fl_round F x \<le> fl_round F y"
    and "fl_round F 0 = 0" and "fl_round F 1 = 1"
    and "0 \<le> fl_exp F x" and "fl_round F (fl_exp F x) = fl_exp F x" and "fl_exp F 0 = 1"
    and "list_all (\<lambda>x. 0 \<le> x \<and> fl_round F x = x) xs \<Longrightarrow> list_all (\<lambda>x. x \<le> fl_sum F xs) xs"
  using assms unfolding fmt_ok_def by blast+

lemma fl_round_unit:
  assumes "fmt_ok F" "0 \<le> x" "x \<le> 1"
  shows "0 \<le> fl_round F x" "fl_round F x \<le> 1"
  using fmt_okD(1)[OF assms(1), of 0 x] fmt_okD(1)[OF assms(1), of x 1] assms(2,3)
    fmt_okD(2,3)[OF assms(1)] by simp_all

lemma sigmoid_fl_bounds:
  assumes "fmt_ok F"
  shows "0 \<le> sigmoid_fl F x" "sigmoid_fl F x \<le> 1"
proof -
  let ?e = "fl_exp F (- x)"
  let ?d = "fl_round F (1 + ?e)"
  have e: "0 \<le> ?e" using fmt_okD(4)[OF assms] .
  have "fl_round F 1 \<le> ?d" using fmt_okD(1)[OF assms, of 1 "1 + ?e"] e by simp
  then have d: "1 \<le> ?d" using fmt_okD(3)[OF assms] by simp
  then have "0 \<le> 1 / ?d" "1 / ?d \<le> 1" by simp_all
  then have r: "0 \<le> fl_round F (1 / ?d)" "fl_round F (1 / ?d) \<le> 1"
    using fl_round_unit[OF assms] by blast+
  show "0 \<le> sigmoid_fl F x" using r(1) by (simp add: sigmoid_fl_def Let_def)
  show "sigmoid_fl F x \<le> 1" using r(2) by (simp add: sigmoid_fl_def Let_def)
qed

lemma softmax0_fl_shape: "has_shape L b k \<Longrightarrow> has_shape (softmax0_fl F L) b k"
  by (simp add: has_shape_def softmax0_fl_def list_all_iff)

lemma softmax0_fl_nth:
  assumes "has_shape L b k" "i < b" "j < k"
  shows "softmax0_fl F L ! i ! j =
           (let x_max = Max (set (map (\<lambda>r. r ! j) L));
                unnormalized = (\<lambda>r. fl_exp F (fl_round F (r ! j - x_max)))
            in fl_round F (unnormalized (L ! i) / fl_sum F (map unnormalized L)))"
proof -
  have "length L = b" using assms(1) by (simp add: has_shape_def)
  moreover have "length (L ! i) = k" using nth_shape[OF assms(1,2)] .
  ultimately show ?thesis using assms(2,3) by (simp add: softmax0_fl_def)
qed

lemma softmax0_fl_bounds:
  assumes F: "fmt_ok F" and L: "has_shape L b k" and i: "i < b" and j: "j < k"
  shows "0 \<le> softmax0_fl F L ! i ! j" "softmax0_fl F L ! i ! j \<le> 1"
proof -
  define x_max where "x_max = Max (set (map (\<lambda>r. r ! j) L))"
  define u where "u = (\<lambda>r. fl_exp F (fl_round F (r ! j - x_max)))"
  define S where "S = fl_sum F (map u L)"
  have len: "length L = b" using L by (simp add: has_shape_def)
  have ne: "set (map (\<lambda>r. r ! j) L) \<noteq> {}" using len i by auto
  have "x_max \<in> set (map (\<lambda>r. r ! j) L)" unfolding x_max_def using Max_in[OF _ ne] by simp
  then obtain r where r: "r \<in> set L" "r ! j = x_max" by auto
  have ur: "u r = 1" unfolding u_def using r(2) fmt_okD(2,6)[OF F] by simp
  have "list_all (\<lambda>x. 0 \<le> x \<and> fl_round F x = x) (map u L)"
    unfolding u_def using fmt_okD(4,5)[OF F] by (simp add: list_all_iff)
  then have "list_all (\<lambda>x. x \<le> S) (map u L)" unfolding S_def by (rule fmt_okD(7)[OF F])
  then have le: "\<And>q. q \<in> set L \<Longrightarrow> u q \<le> S" by (simp add: list_all_iff)
  have S1: "1 \<le> S" using le[OF r(1)] ur by simp
  have Li: "L ! i \<in> set L" using len i by simp
  have u0: "0 \<le> u (L ! i)" unfolding u_def using fmt_okD(4)[OF F] .
  have "0 \<le> u (L ! i) / S" "u (L ! i) / S \<le> 1" using u0 le[OF Li] S1 by simp_all
  then have b: "0 \<le> fl_round F (u (L ! i) / S)" "fl_round F (u (L ! i) / S) \<le> 1"
    using fl_round_unit[OF F] by blast+
  have eq: "softmax0_fl F L ! i ! j = fl_round F (u (L ! i) / S)"
    unfolding softmax0_fl_nth[OF L i j] Let_def u_def S_def x_max_def ..
  show "0 \<le> softmax0_fl F L ! i ! j" "softmax0_fl F L ! i ! j \<le> 1"
    using b eq by simp_all
qed

lemma auct_alloc_fl_ok:
  assumes b: "0 < bidders" and v: "has_shape vals bidders items"
    and p: "auct_params_ok bidders items p"
  shows "auct_alloc_fl F bidders items p vals =
           Inr (map (\<lambda>row. map (\<lambda>j. fl_round F (sigmoid_fl F (alloc_prob p (ravel vals) ! j) * row ! j))
                              [0..<items])
                  (softmax0_fl F (alloc_logits bidders p vals)))"
    and "has_shape (alloc_logits bidders p vals) bidders items"
proof -
  have la: "length (alloc_prob p (ravel vals)) = items"
    using p length_ravel[OF v] by (simp add: auct_params_ok_def mlp_out_def)
  have Ls: "has_shape (alloc_logits bidders p vals) bidders items"
    using alloc_logits_shape[OF _ v] p by (simp add: auct_params_ok_def)
  show "has_shape (alloc_logits bidders p vals) bidders items" by (rule Ls)
  have ne: "alloc_logits bidders p vals \<noteq> []"
    using b by (simp add: alloc_logits_def)
  have st: "stack0 (alloc_logits bidders p vals) = Inr (alloc_logits bidders p vals)"
    using Ls ne by (intro stack0_ok[where k = items]) (simp_all add: has_shape_def)
  have sm: "has_shape (softmax0_fl F (alloc_logits bidders p vals)) bidders items"
    using softmax0_fl_shape[OF Ls] .
  have a2: "has_shape (map (\<lambda>row. map (\<lambda>j. fl_round F (map (sigmoid_fl F) (alloc_prob p (ravel vals)) ! j * row ! j))
                              [0..<items])
                  (softmax0_fl F (alloc_logits bidders p vals))) bidders items"
    using sm by (simp add: has_shape_def list_all_iff)
  have "auct_alloc_fl F bidders items p vals =
          Inr (map (\<lambda>row. map (\<lambda>j. fl_round F (map (sigmoid_fl F) (alloc_prob p (ravel vals)) ! j * row ! j))
                              [0..<items])
                  (softmax0_fl F (alloc_logits bidders p vals)))"
    unfolding auct_alloc_fl_def Let_def
    using la st sm a2 by (simp add: alloc_logits_def[symmetric])
  also have "\<dots> = Inr (map (\<lambda>row. map (\<lambda>j. fl_round F (sigmoid_fl F (alloc_prob p (ravel vals) ! j) * row ! j))
                              [0..<items])
                  (softmax0_fl F (alloc_logits bidders p vals)))"
    using la by simp
  finally show "auct_alloc_fl F bidders items p vals =
           Inr (map (\<lambda>row. map (\<lambda>j. fl_round F (sigmoid_fl F (alloc_prob p (ravel vals) ! j) * row ! j))
                              [0..<items])
                  (softmax0_fl F (alloc_logits bidders p vals)))" .
qed

lemma copy_net_out: "k \<le> n \<Longrightarrow> mlp_out (copy_net k) n k"
  by (simp add: mlp_out_def copy_net_def)

lemma auct_alloc_fl_exact: "auct_alloc_fl exact bidders items p vals = auct_alloc bidders items p vals"
proof -
  have s: "sigmoid_fl exact = sigmoid" by (rule ext) (rule sigmoid_fl_exact)
  have r: "fl_round exact x = x" for x by (simp add: exact_def)
  show ?thesis
    unfolding auct_alloc_fl_def auct_alloc_def s softmax0_fl_exact r ..
qed

lemma Misreporter_fl_exact: "Misreporter_fl exact bidders items p vals = Misreporter bidders items p vals"
proof -
  have s: "sigmoid_fl exact = sigmoid" by (rule ext) (rule sigmoid_fl_exact)
  show ?thesis unfolding Misreporter_fl_def Misreporter_def s ..
qed

text \<open>
  The rest of the auctioneer's call in a number format: it raises nothing on a profile
  of shape (bidders, items) and returns the allocation of lines 93 to 112 with one
  payment per bidder; in the exact format it is the auctioneer of the exact reading.
\<close>

lemma auct_pay_frac_fl_ok:
  assumes b: "0 < bidders" and v: "has_shape vals bidders items"
    and p: "mlp_out (pay_mlp p) (bidders * items) 1"
  shows "auct_pay_frac_fl F bidders p vals =
     Inr (map (\<lambda>i. sigmoid_fl F (hd (pay_mlp p (ravel (permute_along_bidders vals i))))) [0..<bidders])"
proof -
  let ?outs = "map (\<lambda>i. map (sigmoid_fl F) (pay_mlp p (ravel (permute_along_bidders vals i)))) [0..<bidders]"
  let ?row = "map (\<lambda>i. sigmoid_fl F (hd (pay_mlp p (ravel (permute_along_bidders vals i))))) [0..<bidders]"
  have len: "length (pay_mlp p (ravel (permute_along_bidders vals i))) = 1" for i
    using mlp_out_permute[OF p v] by simp
  have ne: "?outs \<noteq> []" using b by simp
  have all1: "list_all (\<lambda>w. length w = 1) ?outs"
    using len by (simp add: list_all_iff)
  have hd_eq: "map hd ?outs = ?row"
  proof -
    have "hd (map (sigmoid_fl F) (pay_mlp p (ravel (permute_along_bidders vals i)))) =
          sigmoid_fl F (hd (pay_mlp p (ravel (permute_along_bidders vals i))))" for i
      using len[of i] by (cases "pay_mlp p (ravel (permute_along_bidders vals i))") simp_all
    then show ?thesis by simp
  qed
  have st: "stack1 ?outs = Inr [?row]"
    using stack1_len1[OF ne all1] hd_eq by simp
  have lr: "length ?row = bidders" by simp
  show ?thesis
  proof (cases "bidders = 1")
    case True
    then have "?row = [hd ?row]" by (simp add: upt_rec)
    then show ?thesis
      unfolding auct_pay_frac_fl_def st using True lr
      by (simp add: assert_vec_def Let_def del: length_map map_map)
  next
    case False
    then show ?thesis
      unfolding auct_pay_frac_fl_def st using lr
      by (simp add: assert_vec_def Let_def del: map_map)
  qed
qed

lemma bop2_length:
  "bop2 f a m = Inr r \<Longrightarrow> \<exists>r'. bop2 g a m = Inr r' \<and> length r' = length r"
  by (auto simp: bop2_def split: if_splits)

lemma allocated_value_fl_ok:
  assumes b: "0 < b" and v: "has_shape vals b k" and a: "has_shape alloc b k"
  shows "\<exists>s. allocated_value_fl F vals alloc = Inr s \<and> length s = b"
proof -
  obtain s where s: "allocated_value vals alloc = Inr s"
    using allocated_value_ok[OF b v a] by blast
  have ls: "length s = b" by (rule allocated_value_length[OF b v a s])
  obtain a' m where am: "as_mat (squeeze (A2 vals)) = Inr a'" "bop2 (*) a' alloc = Inr m"
    and sm: "s = sum_axis1 m"
    using s by (auto simp: allocated_value_def mul_arr_mat_def split: sum.splits)
  obtain m' where m': "bop2 (\<lambda>x y. fl_round F (x * y)) a' alloc = Inr m'" "length m' = length m"
    using bop2_length[OF am(2)] by blast
  have "allocated_value_fl F vals alloc = Inr (map (fl_sum F) m')"
    unfolding allocated_value_fl_def am(1) by (simp add: m'(1))
  moreover have "length (map (fl_sum F) m') = b"
    using m'(2) ls sm by (simp add: sum_axis1_def)
  ultimately show ?thesis by blast
qed

lemma Auctioneer_fl_ok:
  assumes b: "0 < bidders" and v: "has_shape vals bidders items"
    and p: "auct_params_ok bidders items p"
    and r: "auct_alloc_fl F bidders items p vals = Inr alloc"
    and sh: "has_shape alloc bidders items"
  shows "\<exists>pay. Auctioneer_fl F bidders items p vals = Inr (alloc, pay) \<and> length pay = bidders"
proof -
  let ?f = "map (\<lambda>i. sigmoid_fl F (hd (pay_mlp p (ravel (permute_along_bidders vals i)))))
              [0..<bidders]"
  have pf: "auct_pay_frac_fl F bidders p vals = Inr ?f"
    using p by (intro auct_pay_frac_fl_ok[OF b v]) (simp add: auct_params_ok_def)
  have lf: "length ?f = bidders" by simp
  obtain s where s: "allocated_value_fl F vals alloc = Inr s" and ls: "length s = bidders"
    using allocated_value_fl_ok[OF b v sh] by blast
  have "Auctioneer_fl F bidders items p vals =
          Inr (alloc, map (\<lambda>i. fl_round F (?f ! i * s ! i)) [0..<bidders])"
    using bop1_same_length[OF lf ls, of "\<lambda>x y. fl_round F (x * y)"]
    by (simp add: Auctioneer_fl_def r pf s)
  then show ?thesis by simp
qed

lemma Auctioneer_fl_exact: "Auctioneer_fl exact bidders items p vals = Auctioneer bidders items p vals"
proof -
  have s: "sigmoid_fl exact = sigmoid" by (rule ext) (rule sigmoid_fl_exact)
  have r: "(\<lambda>x y. fl_round exact (x * y)) = (*)" by (intro ext) (simp add: exact_def)
  have f: "auct_pay_frac_fl exact bidders p vals = auct_pay_frac bidders p vals"
    unfolding auct_pay_frac_fl_def auct_pay_frac_def s ..
  have a: "allocated_value_fl exact vals alloc = allocated_value vals alloc" for alloc
    unfolding allocated_value_fl_def allocated_value_def mul_arr_mat_def r
    by (simp add: exact_def sum_axis1_def split: sum.splits)
  show ?thesis
    unfolding Auctioneer_fl_def Auctioneer_def auct_alloc_fl_exact f a r ..
qed

text \<open>
  The sum of a column of the allocation in a format of accuracy \<open>e\<close>, \<open>h\<close>: every entry
  is at most \<open>(1 + e)\<^sup>2\<close> times its share of the exact sum of the unnormalized values,
  plus \<open>(2 + e) * h\<close>, and the rounded sum is at least \<open>(1 - e) ^ b - b * h\<close> times the
  exact sum. At the accuracy of binary32 and up to \<open>2 ^ 20\<close> bidders the bound is below
  \<open>1 + (2 * b + 9) / 2 ^ 24\<close>.
\<close>

lemma sum_list_le_pointwise:
  fixes f g :: "'a \<Rightarrow> real"
  assumes "\<And>x. x \<in> set xs \<Longrightarrow> f x \<le> g x"
  shows "sum_list (map f xs) \<le> sum_list (map g xs)"
  using assms by (induction xs) (auto intro: add_mono)

lemma sum_list_affine:
  fixes f :: "'a \<Rightarrow> real"
  shows "sum_list (map (\<lambda>x. a * f x + c) xs) = a * sum_list (map f xs) + real (length xs) * c"
  by (induction xs) (simp_all add: algebra_simps)

lemma softmax0_fl_column_sum:
  assumes F: "fmt_ok F" and A: "fmt_accurate F e h" and L: "has_shape L b k"
    and b: "0 < b" and j: "j < k" and c: "0 \<le> cf j" "cf j \<le> 1"
    and D: "0 < (1 - e) ^ b - real b * h"
  shows "col_sum (map (\<lambda>row. map (\<lambda>j. fl_round F (cf j * row ! j)) [0..<k]) (softmax0_fl F L)) j
         \<le> (1 + e)\<^sup>2 / ((1 - e) ^ b - real b * h) + real b * ((2 + e) * h)"
proof -
  define x_max where "x_max = Max (set (map (\<lambda>r. r ! j) L))"
  define u where "u = (\<lambda>r. fl_exp F (fl_round F (r ! j - x_max)))"
  define S where "S = fl_sum F (map u L)"
  define T where "T = sum_list (map u L)"
  define DD where "DD = (1 - e) ^ b - real b * h"
  have e0: "0 \<le> e" and h0: "0 \<le> h" using fmt_accurateD(1,3)[OF A] by simp_all
  have len: "length L = b" using L by (simp add: has_shape_def)
  have rowlen: "length r = k" if "r \<in> set L" for r using has_shapeD[OF L that] .
  have ne: "set (map (\<lambda>r. r ! j) L) \<noteq> {}" using len b by auto
  have "x_max \<in> set (map (\<lambda>r. r ! j) L)" unfolding x_max_def using Max_in[OF _ ne] by simp
  then obtain r0 where r0: "r0 \<in> set L" "r0 ! j = x_max" by auto
  have ur0: "u r0 = 1" unfolding u_def using r0(2) fmt_okD(2,6)[OF F] by simp
  have u0: "0 \<le> u r" for r unfolding u_def using fmt_okD(4)[OF F] .
  have rep: "list_all (\<lambda>x. 0 \<le> x \<and> fl_round F x = x) (map u L)"
    unfolding u_def using fmt_okD(4,5)[OF F] by (simp add: list_all_iff)
  have "list_all (\<lambda>x. x \<le> S) (map u L)" unfolding S_def using rep by (rule fmt_okD(7)[OF F])
  then have le: "\<And>q. q \<in> set L \<Longrightarrow> u q \<le> S" by (simp add: list_all_iff)
  have S1: "1 \<le> S" using le[OF r0(1)] ur0 by simp
  have T1: "1 \<le> T"
  proof -
    have "u r0 \<le> sum_list (map u L)"
      by (rule member_le_sum_list) (use r0(1) u0 in auto)
    then show ?thesis unfolding T_def using ur0 by simp
  qed
  have Slow: "(1 - e) ^ b * T - real b * h \<le> S"
    using fmt_accurateD(5)[OF A rep] unfolding S_def T_def by (simp add: len)
  have "real b * h \<le> real b * h * T"
  proof -
    have "0 \<le> real b * h" using h0 by simp
    then show ?thesis using T1 mult_left_mono[of 1 T "real b * h"] by simp
  qed
  then have STD: "T * DD \<le> S" using Slow unfolding DD_def by (simp add: algebra_simps)
  have Dpos: "0 < DD" using D unfolding DD_def .
  have Spos: "0 < S" using S1 by linarith
  have TS: "T / S \<le> 1 / DD"
  proof -
    have "T * DD \<le> 1 * S" using STD by simp
    then show ?thesis using Dpos Spos by (simp add: field_simps)
  qed
  have col: "map (\<lambda>r. r ! j) (map (\<lambda>row. map (\<lambda>j. fl_round F (cf j * row ! j)) [0..<k])
               (softmax0_fl F L)) =
             map (\<lambda>r. fl_round F (cf j * fl_round F (u r / S))) L"
  proof -
    have "map (\<lambda>j. let x_max = Max (set (map (\<lambda>r. r ! j) L));
                       unnormalized = (\<lambda>r. fl_exp F (fl_round F (r ! j - x_max)))
                   in fl_round F (unnormalized r / fl_sum F (map unnormalized L)))
            [0..<length r] ! j = fl_round F (u r / S)" if "r \<in> set L" for r
      using rowlen[OF that] j by (simp add: Let_def u_def S_def x_max_def)
    then show ?thesis using j by (simp add: softmax0_fl_def)
  qed
  have entry_le: "fl_round F (cf j * fl_round F (u r / S)) \<le> (1 + e)\<^sup>2 * (u r / S) + (2 + e) * h"
    if "r \<in> set L" for r
  proof -
    let ?q = "u r / S"
    let ?w = "fl_round F ?q"
    have q: "0 \<le> ?q" "?q \<le> 1" using u0[of r] le[OF that] S1 by simp_all
    have w0: "0 \<le> ?w" using fl_round_unit(1)[OF F q] .
    have w1: "?w \<le> (1 + e) * ?q + h" using fmt_accurateD(4)[OF A q(1)] .
    have cw0: "0 \<le> cf j * ?w" using c(1) w0 by simp
    have cw1: "cf j * ?w \<le> ?w" using c(2) w0 mult_right_mono[of "cf j" 1 ?w] by simp
    have "fl_round F (cf j * ?w) \<le> (1 + e) * (cf j * ?w) + h"
      using fmt_accurateD(4)[OF A cw0] .
    also have "\<dots> \<le> (1 + e) * ?w + h"
      using cw1 e0 by (simp add: mult_left_mono)
    also have "\<dots> \<le> (1 + e) * ((1 + e) * ?q + h) + h"
      using w1 e0 by (simp add: mult_left_mono)
    also have "\<dots> = (1 + e)\<^sup>2 * ?q + (2 + e) * h"
    proof -
      have "(1 + e) * ((1 + e) * y + h) + h = (1 + e)\<^sup>2 * y + (2 + e) * h" for y
        by (simp add: power2_eq_square algebra_simps)
      then show ?thesis by (simp only:)
    qed
    finally show ?thesis .
  qed
  have "col_sum (map (\<lambda>row. map (\<lambda>j. fl_round F (cf j * row ! j)) [0..<k]) (softmax0_fl F L)) j
        = sum_list (map (\<lambda>r. fl_round F (cf j * fl_round F (u r / S))) L)"
    unfolding col_sum_def col ..
  also have "\<dots> \<le> sum_list (map (\<lambda>r. (1 + e)\<^sup>2 * (u r / S) + (2 + e) * h) L)"
    by (rule sum_list_le_pointwise) (rule entry_le)
  also have "\<dots> = (1 + e)\<^sup>2 * sum_list (map (\<lambda>r. u r / S) L) + real b * ((2 + e) * h)"
    unfolding sum_list_affine len ..
  also have "sum_list (map (\<lambda>r. u r / S) L) = T / S"
    unfolding T_def by (simp add: sum_list_divide)
  also have "(1 + e)\<^sup>2 * (T / S) + real b * ((2 + e) * h)
             \<le> (1 + e)\<^sup>2 * (1 / DD) + real b * ((2 + e) * h)"
    using mult_left_mono[OF TS, of "(1 + e)\<^sup>2"] by simp
  finally show ?thesis unfolding DD_def by simp
qed

lemma float32_column_bound:
  fixes b :: nat
  assumes "b \<le> 2 ^ 20"
  shows "0 < (1 - 1 / 2 ^ 24) ^ b - real b * 2 powr (- 126)"
    and "(1 + 1 / 2 ^ 24)\<^sup>2 / ((1 - 1 / 2 ^ 24) ^ b - real b * 2 powr (- 126))
           + real b * ((2 + 1 / 2 ^ 24) * 2 powr (- 126))
         \<le> 1 + (2 * real b + 9) / 2 ^ 24"
proof -
  define e :: real where "e = 1 / 2 ^ 24"
  define h :: real where "h = 2 powr (- 126)"
  define d where "d = (real b + 1) * e"
  define DD where "DD = (1 - e) ^ b - real b * h"
  have e0: "0 < e" unfolding e_def by simp
  have he: "h \<le> e / 2 ^ 22" unfolding h_def e_def by (simp add: powr_neg_numeral)
  have h0: "0 \<le> h" unfolding h_def by simp
  have b20: "real b \<le> 2 ^ 20" using assms by (metis of_nat_le_iff of_nat_numeral of_nat_power)
  have bh: "real b * h \<le> e / 4"
  proof -
    have "real b * h \<le> 2 ^ 20 * (e / 2 ^ 22)"
      using b20 he e0 h0 by (intro mult_mono) simp_all
    then show ?thesis by simp
  qed
  have be: "real b * e \<le> 1 / 16"
  proof -
    have "real b * e \<le> 2 ^ 20 * e" using b20 e0 by (simp add: mult_right_mono)
    then show ?thesis unfolding e_def by simp
  qed
  have e16: "e \<le> 1 / 16" unfolding e_def by simp
  have d12: "d \<le> 1 / 2" "0 \<le> d" unfolding d_def using be e16 e0 by (simp_all add: algebra_simps)
  have bern: "1 - real b * e \<le> (1 - e) ^ b"
    using Bernoulli_inequality[of "- e" b] e16 by simp
  have DDlow: "1 - d \<le> DD"
    unfolding DD_def d_def using bern bh e0 by (simp add: algebra_simps)
  have DDpos: "0 < DD" using DDlow d12 by linarith
  show "0 < (1 - 1 / 2 ^ 24) ^ b - real b * 2 powr (- 126)"
    using DDpos unfolding DD_def e_def h_def .
  have sq: "(1 + e)\<^sup>2 \<le> 1 + 3 * e"
  proof -
    have "e * e \<le> 1 * e" using e16 e0 by (intro mult_right_mono) simp_all
    then show ?thesis by (simp add: power2_eq_square algebra_simps)
  qed
  have key: "1 + 3 * e \<le> (1 - d) * (1 + 2 * d + 6 * e)"
  proof -
    have "(1 - d) * (1 + 2 * d + 6 * e) - (1 + 3 * e) = (d + 3 * e) * (1 - 2 * d)"
      by (simp add: algebra_simps)
    moreover have "0 \<le> (d + 3 * e) * (1 - 2 * d)"
      using d12 e0 by (intro mult_nonneg_nonneg) simp_all
    ultimately show ?thesis by linarith
  qed
  have B0: "0 \<le> 1 + 2 * d + 6 * e" using d12 e0 by simp
  have "(1 + e)\<^sup>2 \<le> DD * (1 + 2 * d + 6 * e)"
  proof -
    have "(1 - d) * (1 + 2 * d + 6 * e) \<le> DD * (1 + 2 * d + 6 * e)"
      using DDlow B0 by (rule mult_right_mono)
    then show ?thesis using sq key by linarith
  qed
  then have frac: "(1 + e)\<^sup>2 / DD \<le> 1 + 2 * d + 6 * e"
    using DDpos by (simp add: field_simps)
  have tail: "real b * ((2 + e) * h) \<le> e"
  proof -
    have "0 \<le> real b * h" using h0 by simp
    then have "(2 + e) * (real b * h) \<le> 3 * (e / 4)"
      using bh e16 e0 by (intro mult_mono) simp_all
    then show ?thesis using e0 by (simp add: algebra_simps)
  qed
  have "(1 + e)\<^sup>2 / DD + real b * ((2 + e) * h) \<le> 1 + 2 * d + 6 * e + e"
    using frac tail by linarith
  also have "\<dots> = 1 + (2 * real b + 9) * e" unfolding d_def by (simp add: algebra_simps)
  finally show "(1 + 1 / 2 ^ 24)\<^sup>2 / ((1 - 1 / 2 ^ 24) ^ b - real b * 2 powr (- 126))
           + real b * ((2 + 1 / 2 ^ 24) * 2 powr (- 126))
         \<le> 1 + (2 * real b + 9) / 2 ^ 24"
    unfolding DD_def e_def h_def by simp
qed

section \<open>The allocation\<close>

text \<open>
  In the exact reading the allocation is feasible: every softmax column sums to 1, the
  sigmoid factor of every item lies strictly between 0 and 1, and the column of the
  allocation sums to the factor.
\<close>

lemma exact_allocation_feasible:
  assumes b: "0 < bidders" and v: "has_shape vals bidders items"
    and p: "auct_params_ok bidders items p"
  shows "\<exists>alloc pay. Auctioneer bidders items p vals = Inr (alloc, pay) \<and>
           auct_alloc bidders items p vals = Inr alloc \<and>
           (\<forall>j<items.
              col_sum (softmax0 (alloc_logits bidders p vals)) j = 1 \<and>
              0 < sigmoid (alloc_prob p (ravel vals) ! j) \<and>
              sigmoid (alloc_prob p (ravel vals) ! j) < 1 \<and>
              col_sum alloc j = sigmoid (alloc_prob p (ravel vals) ! j) \<and>
              col_sum alloc j \<le> 1)"
proof -
  let ?sm = "softmax0 (alloc_logits bidders p vals)"
  let ?c = "\<lambda>j. sigmoid (alloc_prob p (ravel vals) ! j)"
  let ?alloc = "map (\<lambda>row. map (\<lambda>j. ?c j * row ! j) [0..<items]) ?sm"
  have al: "auct_alloc bidders items p vals = Inr ?alloc"
    by (rule auct_alloc_ok[OF b v p])
  obtain pay where run: "Auctioneer bidders items p vals = Inr (?alloc, pay)"
    using Auctioneer_ok[OF b v p] al by auto
  have lsh: "has_shape (alloc_logits bidders p vals) bidders items"
    using p v by (simp add: auct_params_ok_def alloc_logits_shape)
  have ssh: "has_shape ?sm bidders items"
    using lsh by (rule softmax0_shape)
  have cs1: "col_sum ?sm j = 1" if "j < items" for j
    by (rule softmax0_col_sum[OF lsh b that])
  have cs: "col_sum ?alloc j = ?c j" if "j < items" for j
    using col_sum_scaled[OF ssh that, of ?c] cs1[OF that] by simp
  have csle: "col_sum ?alloc j \<le> 1" if "j < items" for j
    using cs[OF that] sigmoid_lt_1[of "alloc_prob p (ravel vals) ! j"] by simp
  show ?thesis
    using run al cs1 cs csle sigmoid_pos sigmoid_lt_1 by blast
qed

text \<open>
  Claim C4 fails in float32. Three bidders, two items, an auctioneer whose perceptron
  \<^verbatim>\<open>alloc_prob\<close> outputs 100 for every item and whose perceptron \<^verbatim>\<open>alloc_which\<close>
  outputs 0: the sigmoid factor is exactly 1, not below 1; every softmax entry is the
  float nearest to \<open>1 / 3\<close>, so the softmax column sums to \<open>1 + 2 ^ (- 25)\<close>, not to 1;
  and the column of the allocation sums to \<open>1 + 2 ^ (- 25)\<close>, above 1.
\<close>

theorem allocation_column_above_one:
  "(\<exists>pay. Auctioneer_fl float32 3 2 (saturated_auct 2) [[1/4, 1/2], [3/4, 0], [1/8, 1]] =
     Inr ([[11184811 / 33554432, 11184811 / 33554432],
           [11184811 / 33554432, 11184811 / 33554432],
           [11184811 / 33554432, 11184811 / 33554432]], pay)) \<and>
   col_sum [[11184811 / 33554432, 11184811 / 33554432],
            [11184811 / 33554432, 11184811 / 33554432],
            [11184811 / 33554432, 11184811 / 33554432]] 0 = 33554433 / 33554432 \<and>
   \<not> col_sum [[11184811 / 33554432, 11184811 / 33554432],
              [11184811 / 33554432, 11184811 / 33554432],
              [11184811 / 33554432, 11184811 / 33554432]] 0 \<le> 1 \<and>
   col_sum (softmax0_fl float32
              (alloc_logits 3 (saturated_auct 2) [[1/4, 1/2], [3/4, 0], [1/8, 1]])) 0 \<noteq> 1 \<and>
   \<not> sigmoid_fl float32 (alloc_prob (saturated_auct 2) (ravel [[1/4, 1/2], [3/4, 0], [1/8, 1]]) ! 0) < 1"
proof -
  let ?V = "[[1/4, 1/2], [3/4, 0], [1/8, 1]] :: mat"
  let ?w = "11184811 / 33554432 :: real"
  have L: "alloc_logits 3 (saturated_auct 2) ?V = [[0, 0], [0, 0], [0, 0]]"
    by (simp add: alloc_logits_def saturated_auct_def eval_nat_numeral upt_rec)
  have P: "alloc_prob (saturated_auct 2) (ravel ?V) = [100, 100]"
    by (simp add: saturated_auct_def eval_nat_numeral)
  have one: "fl_round float32 ?w = ?w"
    using float32_round_third_again by (simp add: float32_def)
  have run: "auct_alloc_fl float32 3 2 (saturated_auct 2) ?V = Inr [[?w, ?w], [?w, ?w], [?w, ?w]]"
    unfolding auct_alloc_fl_def L P
    by (simp add: Let_def stack0_def softmax0_fl_float32_equal_logits sigmoid_fl_float32_100
        has_shape_def upt_2 one)
  have cs: "col_sum [[?w, ?w], [?w, ?w], [?w, ?w]] 0 = 33554433 / 33554432"
    by (simp add: col_sum_def)
  have sm: "col_sum (softmax0_fl float32 (alloc_logits 3 (saturated_auct 2) ?V)) 0 \<noteq> 1"
    unfolding L softmax0_fl_float32_equal_logits by (simp add: col_sum_def)
  have sg: "\<not> sigmoid_fl float32 (alloc_prob (saturated_auct 2) (ravel ?V) ! 0) < 1"
    unfolding P by (simp add: sigmoid_fl_float32_100)
  have h2: "has_shape ?V 3 2" by (simp add: has_shape_def)
  have h3: "auct_params_ok 3 2 (saturated_auct 2)"
    by (simp add: auct_params_ok_def mlp_out_def saturated_auct_def)
  have h4: "has_shape [[?w, ?w], [?w, ?w], [?w, ?w]] 3 2" by (simp add: has_shape_def)
  have whole: "\<exists>pay. Auctioneer_fl float32 3 2 (saturated_auct 2) ?V =
                 Inr ([[?w, ?w], [?w, ?w], [?w, ?w]], pay)"
    using Auctioneer_fl_ok[OF _ h2 h3 run h4] by auto
  show ?thesis
    unfolding cs using whole sm sg by simp
qed

text \<open>
  Claim C4, as far as it holds. For at least one bidder (and at most \<open>2 ^ 20\<close>), a
  valuation matrix of shape (bidders, items), perceptrons with the output sizes they are
  built with and a number format that keeps \<open>fmt_ok\<close> and has the accuracy of binary32
  (float32 is one, exact arithmetic another), the auctioneer returns an allocation
  matrix of shape (bidders, items) and one payment per bidder. Entry \<open>(i, j)\<close> of the
  allocation is the rounded product of the sigmoid factor of item \<open>j\<close> and the softmax
  entry of bidder \<open>i\<close> for item \<open>j\<close>; the factor, the softmax entry and the entry of
  the allocation all lie in \<open>[0, 1]\<close>, and every column of the allocation sums to at
  most \<open>1 + (2 * bidders + 9) / 2 ^ 24\<close>. In exact arithmetic, moreover, every softmax
  column sums to exactly 1, every factor lies strictly between 0 and 1, and every column
  of the allocation sums to its factor, which is at most 1.
\<close>

theorem allocation_feasible_up_to_rounding:
  assumes b: "0 < bidders" and n: "bidders \<le> 2 ^ 20" and v: "has_shape vals bidders items"
    and p: "auct_params_ok bidders items p"
    and F: "fmt_ok F" and A: "fmt_accurate F (1 / 2 ^ 24) (2 powr (- 126))"
  shows "\<exists>alloc pay. Auctioneer_fl F bidders items p vals = Inr (alloc, pay) \<and>
           has_shape alloc bidders items \<and> length pay = bidders \<and>
           (\<forall>i<bidders. \<forall>j<items.
              alloc ! i ! j =
                fl_round F (sigmoid_fl F (alloc_prob p (ravel vals) ! j) *
                            softmax0_fl F (alloc_logits bidders p vals) ! i ! j) \<and>
              0 \<le> sigmoid_fl F (alloc_prob p (ravel vals) ! j) \<and>
              sigmoid_fl F (alloc_prob p (ravel vals) ! j) \<le> 1 \<and>
              0 \<le> softmax0_fl F (alloc_logits bidders p vals) ! i ! j \<and>
              softmax0_fl F (alloc_logits bidders p vals) ! i ! j \<le> 1 \<and>
              0 \<le> alloc ! i ! j \<and> alloc ! i ! j \<le> 1) \<and>
           (\<forall>j<items. col_sum alloc j \<le> 1 + (2 * real bidders + 9) / 2 ^ 24) \<and>
           (F = exact \<longrightarrow>
              Auctioneer bidders items p vals = Inr (alloc, pay) \<and>
              (\<forall>j<items.
                 col_sum (softmax0_fl F (alloc_logits bidders p vals)) j = 1 \<and>
                 0 < sigmoid_fl F (alloc_prob p (ravel vals) ! j) \<and>
                 sigmoid_fl F (alloc_prob p (ravel vals) ! j) < 1 \<and>
                 col_sum alloc j = sigmoid_fl F (alloc_prob p (ravel vals) ! j) \<and>
                 col_sum alloc j \<le> 1))"
proof -
  let ?sm = "softmax0_fl F (alloc_logits bidders p vals)"
  let ?c = "\<lambda>j. sigmoid_fl F (alloc_prob p (ravel vals) ! j)"
  let ?alloc = "map (\<lambda>row. map (\<lambda>j. fl_round F (?c j * row ! j)) [0..<items]) ?sm"
  have run: "auct_alloc_fl F bidders items p vals = Inr ?alloc"
    and lsh: "has_shape (alloc_logits bidders p vals) bidders items"
    using auct_alloc_fl_ok[OF b v p] by blast+
  have ssh: "has_shape ?sm bidders items" using lsh by (rule softmax0_fl_shape)
  have sh: "has_shape ?alloc bidders items"
    using ssh by (simp add: has_shape_def list_all_iff)
  have entry: "?alloc ! i ! j = fl_round F (?c j * ?sm ! i ! j)"
    if "i < bidders" "j < items" for i j
    using that ssh by (simp add: has_shape_def)
  have cb: "0 \<le> ?c j \<and> ?c j \<le> 1" for j
    using sigmoid_fl_bounds[OF F] by blast
  have sb: "0 \<le> ?sm ! i ! j \<and> ?sm ! i ! j \<le> 1" if "i < bidders" "j < items" for i j
    using softmax0_fl_bounds[OF F lsh that] by blast
  have ab: "0 \<le> ?alloc ! i ! j \<and> ?alloc ! i ! j \<le> 1" if "i < bidders" "j < items" for i j
  proof -
    have "?c j * ?sm ! i ! j \<le> 1 * 1"
      using cb[of j] sb[OF that] by (intro mult_mono) simp_all
    moreover have "0 \<le> ?c j * ?sm ! i ! j" using cb[of j] sb[OF that] by simp
    ultimately show ?thesis
      unfolding entry[OF that] using fl_round_unit[OF F, of "?c j * ?sm ! i ! j"] by simp
  qed
  have all: "\<forall>i<bidders. \<forall>j<items.
              ?alloc ! i ! j = fl_round F (?c j * ?sm ! i ! j) \<and>
              0 \<le> ?c j \<and> ?c j \<le> 1 \<and> 0 \<le> ?sm ! i ! j \<and> ?sm ! i ! j \<le> 1 \<and>
              0 \<le> ?alloc ! i ! j \<and> ?alloc ! i ! j \<le> 1"
    using entry cb sb ab by blast
  have cs: "col_sum ?alloc j \<le> 1 + (2 * real bidders + 9) / 2 ^ 24" if j: "j < items" for j
  proof -
    have c0: "0 \<le> ?c j" and c1: "?c j \<le> 1" using cb[of j] by simp_all
    have "col_sum ?alloc j
          \<le> (1 + 1 / 2 ^ 24)\<^sup>2 / ((1 - 1 / 2 ^ 24) ^ bidders - real bidders * 2 powr (- 126))
            + real bidders * ((2 + 1 / 2 ^ 24) * 2 powr (- 126))"
      by (rule softmax0_fl_column_sum[where cf = ?c, OF F A lsh b j c0 c1
            float32_column_bound(1)[OF n]])
    then show ?thesis using float32_column_bound(2)[OF n] by linarith
  qed
  obtain pay where whole: "Auctioneer_fl F bidders items p vals = Inr (?alloc, pay)"
    and lp: "length pay = bidders"
    using Auctioneer_fl_ok[OF b v p run sh] by blast
  have ex: "Auctioneer bidders items p vals = Inr (?alloc, pay) \<and>
              (\<forall>j<items. col_sum ?sm j = 1 \<and> 0 < ?c j \<and> ?c j < 1 \<and>
                 col_sum ?alloc j = ?c j \<and> col_sum ?alloc j \<le> 1)" if e: "F = exact"
  proof -
    obtain alloc pay' where
      a: "auct_alloc bidders items p vals = Inr alloc"
      and c: "\<forall>j<items.
              col_sum (softmax0 (alloc_logits bidders p vals)) j = 1 \<and>
              0 < sigmoid (alloc_prob p (ravel vals) ! j) \<and>
              sigmoid (alloc_prob p (ravel vals) ! j) < 1 \<and>
              col_sum alloc j = sigmoid (alloc_prob p (ravel vals) ! j) \<and>
              col_sum alloc j \<le> 1"
      using exact_allocation_feasible[OF b v p] by blast
    have eq: "?alloc = alloc"
      using run a unfolding e auct_alloc_fl_exact by simp
    have A: "Auctioneer bidders items p vals = Inr (?alloc, pay)"
      using whole unfolding e Auctioneer_fl_exact .
    have "\<forall>j<items. col_sum ?sm j = 1 \<and> 0 < ?c j \<and> ?c j < 1 \<and>
                 col_sum alloc j = ?c j \<and> col_sum alloc j \<le> 1"
      using c unfolding e sigmoid_fl_exact softmax0_fl_exact .
    then show ?thesis
      using A unfolding eq by blast
  qed
  show ?thesis
    using whole sh lp all cs ex by blast
qed

text \<open>
  The theorem at three bidders, two items and perceptrons that depend on the profile,
  in float32 and in exact arithmetic.
\<close>

theorem allocation_feasible_up_to_rounding_witness:
  "(0::nat) < 3 \<and> (3::nat) \<le> 2 ^ 20 \<and> has_shape [[1/4, 1/2], [3/4, 0], [1/8, 1]] 3 2 \<and>
   auct_params_ok 3 2 (copy_auct 2) \<and>
   fmt_ok float32 \<and> fmt_accurate float32 (1 / 2 ^ 24) (2 powr (- 126)) \<and>
   fmt_ok exact \<and> fmt_accurate exact (1 / 2 ^ 24) (2 powr (- 126)) \<and>
   (\<exists>alloc pay. Auctioneer_fl float32 3 2 (copy_auct 2) [[1/4, 1/2], [3/4, 0], [1/8, 1]] =
        Inr (alloc, pay) \<and>
      has_shape alloc 3 2 \<and> 0 \<le> alloc ! 2 ! 1 \<and> alloc ! 2 ! 1 \<le> 1 \<and>
      col_sum alloc 0 \<le> 1 + 15 / 2 ^ 24 \<and> col_sum alloc 1 \<le> 1 + 15 / 2 ^ 24) \<and>
   (\<exists>alloc pay. Auctioneer 3 2 (copy_auct 2) [[1/4, 1/2], [3/4, 0], [1/8, 1]] = Inr (alloc, pay) \<and>
      col_sum alloc 0 \<le> 1 \<and> col_sum alloc 1 \<le> 1)"
proof -
  let ?V = "[[1/4, 1/2], [3/4, 0], [1/8, 1]] :: mat"
  have h1: "(0::nat) < 3" by simp
  have h1': "(3::nat) \<le> 2 ^ 20" by simp
  have h2: "has_shape ?V 3 2" by (simp add: has_shape_def)
  have h3: "auct_params_ok 3 2 (copy_auct 2)"
    by (simp add: auct_params_ok_def copy_auct_def copy_net_out)
  obtain alloc pay0 where
    r: "Auctioneer_fl float32 3 2 (copy_auct 2) ?V = Inr (alloc, pay0)"
    and s: "has_shape alloc 3 2"
    and e: "\<forall>i<3. \<forall>j<2. 0 \<le> alloc ! i ! j \<and> alloc ! i ! j \<le> 1"
    and c: "\<forall>j<2. col_sum alloc j \<le> 1 + (2 * real 3 + 9) / 2 ^ 24"
    using allocation_feasible_up_to_rounding[OF h1 h1' h2 h3 float32_ok float32_accuracy]
    by blast
  have "col_sum alloc 0 \<le> 1 + 15 / 2 ^ 24 \<and> col_sum alloc 1 \<le> 1 + 15 / 2 ^ 24"
    using c by simp
  then have fl: "\<exists>alloc pay. Auctioneer_fl float32 3 2 (copy_auct 2) ?V = Inr (alloc, pay) \<and>
      has_shape alloc 3 2 \<and> 0 \<le> alloc ! 2 ! 1 \<and> alloc ! 2 ! 1 \<le> 1 \<and>
      col_sum alloc 0 \<le> 1 + 15 / 2 ^ 24 \<and> col_sum alloc 1 \<le> 1 + 15 / 2 ^ 24"
    using r s e by simp
  obtain alloc' pay where
    r': "Auctioneer 3 2 (copy_auct 2) ?V = Inr (alloc', pay)"
    and c': "\<forall>j<2. col_sum alloc' j \<le> 1"
    using allocation_feasible_up_to_rounding[OF h1 h1' h2 h3 exact_ok exact_accuracy] by blast
  have ex: "\<exists>alloc pay. Auctioneer 3 2 (copy_auct 2) ?V = Inr (alloc, pay) \<and>
      col_sum alloc 0 \<le> 1 \<and> col_sum alloc 1 \<le> 1"
    using r' c' by simp
  show ?thesis
    by (intro conjI) (rule h1, rule h1', rule h2, rule h3, rule float32_ok,
        rule float32_accuracy, rule exact_ok, rule exact_accuracy, rule fl, rule ex)
qed

section \<open>The misreports\<close>

lemma Misreporter_ok:
  assumes b: "0 < bidders" and v: "has_shape vals bidders items"
    and p: "misr_params_ok bidders items p"
  shows "Misreporter bidders items p vals =
     Inr (map (\<lambda>i. map sigmoid (misr_mlp p (ravel (permute_along_bidders vals i)))) [0..<bidders])"
proof -
  let ?ms = "map (\<lambda>i. misr_mlp p (ravel (permute_along_bidders vals i))) [0..<bidders]"
  have len: "length (misr_mlp p (ravel (permute_along_bidders vals i))) = items" for i
    using mlp_out_permute[OF p[unfolded misr_params_ok_def] v] by simp
  have ne: "?ms \<noteq> []" using b by simp
  have all: "list_all (\<lambda>w. length w = items) ?ms"
    using len by (simp add: list_all_iff)
  have st: "stack0 ?ms = Inr ?ms" by (rule stack0_ok[OF ne all])
  have sh: "has_shape ?ms bidders items"
    using all by (simp add: has_shape_def)
  show ?thesis
    unfolding Misreporter_def st using sh by simp
qed

lemma Misreporter_fl_ok:
  assumes b: "0 < bidders" and v: "has_shape vals bidders items"
    and p: "misr_params_ok bidders items p"
  shows "Misreporter_fl F bidders items p vals =
     Inr (map (\<lambda>i. map (sigmoid_fl F) (misr_mlp p (ravel (permute_along_bidders vals i))))
            [0..<bidders])"
proof -
  let ?ms = "map (\<lambda>i. misr_mlp p (ravel (permute_along_bidders vals i))) [0..<bidders]"
  have len: "length (misr_mlp p (ravel (permute_along_bidders vals i))) = items" for i
    using mlp_out_permute[OF p[unfolded misr_params_ok_def] v] by simp
  have ne: "?ms \<noteq> []" using b by simp
  have all: "list_all (\<lambda>w. length w = items) ?ms"
    using len by (simp add: list_all_iff)
  have st: "stack0 ?ms = Inr ?ms" by (rule stack0_ok[OF ne all])
  have sh: "has_shape ?ms bidders items"
    using all by (simp add: has_shape_def)
  show ?thesis
    unfolding Misreporter_fl_def st using sh by simp
qed

text \<open>
  In the exact reading every misreport lies strictly between 0 and 1.
\<close>

lemma exact_misreports_strict:
  assumes b: "0 < bidders" and v: "has_shape vals bidders items"
    and p: "misr_params_ok bidders items p"
  shows "\<exists>m. Misreporter bidders items p vals = Inr m \<and> has_shape m bidders items \<and>
           (\<forall>i<bidders. \<forall>j<items.
              m ! i ! j = sigmoid (misr_mlp p (ravel (permute_along_bidders vals i)) ! j) \<and>
              0 < m ! i ! j \<and> m ! i ! j < 1)"
proof -
  let ?m = "map (\<lambda>i. map sigmoid (misr_mlp p (ravel (permute_along_bidders vals i)))) [0..<bidders]"
  have len: "length (misr_mlp p (ravel (permute_along_bidders vals i))) = items" for i
    using mlp_out_permute[OF p[unfolded misr_params_ok_def] v] by simp
  have run: "Misreporter bidders items p vals = Inr ?m"
    by (rule Misreporter_ok[OF b v p])
  have sh: "has_shape ?m bidders items"
    using len by (simp add: has_shape_def list_all_iff)
  have entry: "?m ! i ! j = sigmoid (misr_mlp p (ravel (permute_along_bidders vals i)) ! j)"
    if "i < bidders" "j < items" for i j
    using that len[of i] by simp
  have "0 < ?m ! i ! j \<and> ?m ! i ! j < 1" if "i < bidders" "j < items" for i j
    unfolding entry[OF that] by (simp add: sigmoid_pos sigmoid_lt_1)
  with run sh entry show ?thesis by blast
qed

text \<open>
  The view the perceptron is given for index \<open>i\<close>. On a matrix of shape
  (bidders, items) \<open>permute_along_bidders\<close> moves item column \<open>i\<close> to the front, where
  the source's comment says that bidder \<open>i\<close> moves to the front (\<open>spec_permute\<close>). For
  \<open>i = 0\<close> and for \<open>i\<close> from the number of items on, the matrix is returned as it is,
  so these bidders are given one and the same view and one and the same misreport.
\<close>

lemma permute_along_bidders_0: "permute_along_bidders B 0 = B"
  by (simp add: permute_along_bidders_def)

lemma permute_along_bidders_beyond:
  assumes "has_shape B b k" "k \<le> i"
  shows "permute_along_bidders B i = B"
proof -
  have "take 1 (drop i r) @ take i r @ drop (i + 1) r = r" if "r \<in> set B" for r
    using has_shapeD[OF assms(1) that] assms(2) by simp
  then show ?thesis by (simp add: permute_along_bidders_def map_idI)
qed

lemma permute_along_bidders_example:
  "permute_along_bidders [[1/10, 1/5], [3/10, 2/5], [1/2, 3/5]] 1 =
     [[1/5, 1/10], [2/5, 3/10], [3/5, 1/2]] \<and>
   spec_permute [[1/10, 1/5], [3/10, 2/5], [1/2, 3/5]] 1 =
     [[3/10, 2/5], [1/10, 1/5], [1/2, 3/5]] \<and>
   permute_along_bidders [[1/10, 1/5], [3/10, 2/5], [1/2, 3/5]] 2 =
     [[1/10, 1/5], [3/10, 2/5], [1/2, 3/5]] \<and>
   spec_permute [[1/10, 1/5], [3/10, 2/5], [1/2, 3/5]] 2 =
     [[1/2, 3/5], [1/10, 1/5], [3/10, 2/5]]"
  by (simp add: permute_along_bidders_def spec_permute_def)

lemma misreports_shared:
  assumes b: "0 < bidders" and v: "has_shape vals bidders items"
    and p: "misr_params_ok bidders items p"
    and r: "Misreporter_fl F bidders items p vals = Inr m" and i: "i < bidders" "items \<le> i"
  shows "m ! i = m ! 0"
proof -
  have "permute_along_bidders vals i = permute_along_bidders vals 0"
    using permute_along_bidders_beyond[OF v i(2)] by (simp add: permute_along_bidders_0)
  then show ?thesis
    using r i(1) b unfolding Misreporter_fl_ok[OF b v p] by auto
qed

text \<open>
  Claim C7 fails in float32. Two bidders, two items and a misreporter whose perceptron
  outputs 100: every misreport is exactly 1, not below 1.
\<close>

theorem misreport_reaches_one:
  "Misreporter_fl float32 2 2 (saturated_misr 2) [[1/4, 1/2], [3/4, 0]] = Inr [[1, 1], [1, 1]] \<and>
   \<not> [[1, 1], [1, 1]] ! 0 ! 0 < (1::real)"
proof -
  have "Misreporter_fl float32 2 2 (saturated_misr 2) [[1/4, 1/2], [3/4, 0]] = Inr [[1, 1], [1, 1]]"
    by (simp add: Misreporter_fl_def saturated_misr_def stack0_def has_shape_def upt_2
        eval_nat_numeral sigmoid_fl_float32_100)
  then show ?thesis by simp
qed

text \<open>
  Claim C7, as far as it holds. For at least one bidder, a valuation matrix of shape
  (bidders, items), a perceptron with output size \<open>items\<close> and a number format that
  keeps \<open>fmt_ok\<close> (float32 is one), \<^verbatim>\<open>Misreporter.__call__\<close> returns a matrix of shape
  (bidders, items); its entry \<open>(i, j)\<close> is the rounded sigmoid of output \<open>j\<close> of the
  perceptron on the flattened view of index \<open>i\<close>, and lies in \<open>[0, 1]\<close>. In exact
  arithmetic every entry lies strictly between 0 and 1. (What the view of index \<open>i\<close>
  holds is the matter of the lemmas above, not of this statement.)
\<close>

theorem misreports_in_closed_unit_interval:
  assumes b: "0 < bidders" and v: "has_shape vals bidders items"
    and p: "misr_params_ok bidders items p" and F: "fmt_ok F"
  shows "\<exists>m. Misreporter_fl F bidders items p vals = Inr m \<and> has_shape m bidders items \<and>
           (\<forall>i<bidders. \<forall>j<items.
              m ! i ! j = sigmoid_fl F (misr_mlp p (ravel (permute_along_bidders vals i)) ! j) \<and>
              0 \<le> m ! i ! j \<and> m ! i ! j \<le> 1) \<and>
           (F = exact \<longrightarrow>
              Misreporter bidders items p vals = Inr m \<and>
              (\<forall>i<bidders. \<forall>j<items. 0 < m ! i ! j \<and> m ! i ! j < 1))"
proof -
  let ?m = "map (\<lambda>i. map (sigmoid_fl F) (misr_mlp p (ravel (permute_along_bidders vals i))))
              [0..<bidders]"
  have len: "length (misr_mlp p (ravel (permute_along_bidders vals i))) = items" for i
    using mlp_out_permute[OF p[unfolded misr_params_ok_def] v] by simp
  have run: "Misreporter_fl F bidders items p vals = Inr ?m"
    by (rule Misreporter_fl_ok[OF b v p])
  have sh: "has_shape ?m bidders items"
    using len by (simp add: has_shape_def list_all_iff)
  have entry: "?m ! i ! j = sigmoid_fl F (misr_mlp p (ravel (permute_along_bidders vals i)) ! j)"
    if "i < bidders" "j < items" for i j
    using that len[of i] by simp
  have bounds: "0 \<le> ?m ! i ! j \<and> ?m ! i ! j \<le> 1" if "i < bidders" "j < items" for i j
    unfolding entry[OF that] using sigmoid_fl_bounds[OF F] by blast
  have ex: "Misreporter bidders items p vals = Inr ?m \<and>
              (\<forall>i<bidders. \<forall>j<items. 0 < ?m ! i ! j \<and> ?m ! i ! j < 1)" if e: "F = exact"
  proof -
    obtain m where
      M: "Misreporter bidders items p vals = Inr m"
      and s: "\<forall>i<bidders. \<forall>j<items. 0 < m ! i ! j \<and> m ! i ! j < 1"
      using exact_misreports_strict[OF b v p] by blast
    have eq: "?m = m"
      using run M unfolding e Misreporter_fl_exact by simp
    show ?thesis unfolding eq using M s by blast
  qed
  show ?thesis
    using run sh entry bounds ex by blast
qed

text \<open>
  The theorem at three bidders, two items and a perceptron that depends on the profile,
  in float32 and in exact arithmetic.
\<close>

theorem misreports_in_closed_unit_interval_witness:
  "(0::nat) < 3 \<and> has_shape [[1/4, 1/2], [3/4, 0], [1/8, 1]] 3 2 \<and>
   misr_params_ok 3 2 (copy_misr 2) \<and> fmt_ok float32 \<and> fmt_ok exact \<and>
   (\<exists>m. Misreporter_fl float32 3 2 (copy_misr 2) [[1/4, 1/2], [3/4, 0], [1/8, 1]] = Inr m \<and>
      has_shape m 3 2 \<and> 0 \<le> m ! 1 ! 0 \<and> m ! 1 ! 0 \<le> 1) \<and>
   (\<exists>m. Misreporter 3 2 (copy_misr 2) [[1/4, 1/2], [3/4, 0], [1/8, 1]] = Inr m \<and>
      0 < m ! 1 ! 0 \<and> m ! 1 ! 0 < 1)"
proof -
  let ?V = "[[1/4, 1/2], [3/4, 0], [1/8, 1]] :: mat"
  have h1: "(0::nat) < 3" by simp
  have h2: "has_shape ?V 3 2" by (simp add: has_shape_def)
  have h3: "misr_params_ok 3 2 (copy_misr 2)"
    by (simp add: misr_params_ok_def copy_misr_def copy_net_out)
  obtain m where
    r: "Misreporter_fl float32 3 2 (copy_misr 2) ?V = Inr m"
    and s: "has_shape m 3 2"
    and e: "\<forall>i<3. \<forall>j<2. m ! i ! j = sigmoid_fl float32 (misr_mlp (copy_misr 2)
              (ravel (permute_along_bidders ?V i)) ! j) \<and> 0 \<le> m ! i ! j \<and> m ! i ! j \<le> 1"
    using misreports_in_closed_unit_interval[OF h1 h2 h3 float32_ok] by blast
  have "0 \<le> m ! 1 ! 0 \<and> m ! 1 ! 0 \<le> 1" using e[rule_format, of 1 0] by simp
  then have fl: "\<exists>m. Misreporter_fl float32 3 2 (copy_misr 2) ?V = Inr m \<and>
      has_shape m 3 2 \<and> 0 \<le> m ! 1 ! 0 \<and> m ! 1 ! 0 \<le> 1"
    using r s by blast
  obtain m' where
    r': "Misreporter 3 2 (copy_misr 2) ?V = Inr m'"
    and c: "\<forall>i<3. \<forall>j<2. 0 < m' ! i ! j \<and> m' ! i ! j < 1"
    using misreports_in_closed_unit_interval[OF h1 h2 h3 exact_ok] by blast
  have "0 < m' ! 1 ! 0 \<and> m' ! 1 ! 0 < 1" using c[rule_format, of 1 0] by simp
  then have ex: "\<exists>m. Misreporter 3 2 (copy_misr 2) ?V = Inr m \<and> 0 < m ! 1 ! 0 \<and> m ! 1 ! 0 < 1"
    using r' by blast
  show ?thesis
    by (intro conjI) (rule h1, rule h2, rule h3, rule float32_ok, rule exact_ok, rule fl, rule ex)
qed

section \<open>The sampler\<close>

lemma stack_mats_replicate: "0 < n \<Longrightarrow> stack_mats (replicate n m) = Inr (replicate n m)"
  by (cases n) (simp_all add: stack_mats_def list_all_iff)

lemma sample_ok:
  assumes "1 \<le> num_samples"
  shows "sample J self num_samples =
     (Inr (replicate (nat num_samples)
             (uniform J (snd (split2 J (bs_key self))) (bs_bidders self) (bs_items self))),
      self\<lparr>bs_key := fst (split2 J (bs_key self)),
           bs_subkey := Some (snd (split2 J (bs_key self)))\<rparr>)"
proof -
  have n: "0 < nat num_samples" using assms by simp
  show ?thesis
    unfolding sample_def
    by (simp add: split_def Let_def map_replicate_const stack_mats_replicate[OF n])
qed








section \<open>One item and several bidders\<close>

text \<open>
  With one item and two bidders \<^verbatim>\<open>jnp.squeeze(vals)\<close> removes the item axis: the
  product with the allocation broadcasts to a square matrix, and every bidder's row sums
  the values of all bidders.
\<close>

lemma sigmoid_0: "sigmoid 0 = 1 / 2"
  by (simp add: sigmoid_def)

lemma auct_alloc_single_item:
  "auct_alloc 2 1 (zero_auct 1) [[0], [1/2]] = Inr [[1/4], [1/4]]"
  by (simp add: auct_alloc_def alloc_logits_def zero_auct_def stack0_def softmax0_def
      has_shape_def sigmoid_0 upt_2 Let_def)

lemma auct_pay_frac_single_item:
  "auct_pay_frac 2 (zero_auct 1) [[0], [1/2]] = Inr [1/2, 1/2]"
  by (simp add: auct_pay_frac_def zero_auct_def stack1_def sigmoid_0 upt_2 Let_def
      assert_vec_def ncols_def)

lemma allocated_value_single_item:
  "allocated_value [[0], [1/2]] [[1/4], [1/4]] = Inr [1/8, 1/8]"
  by (simp add: allocated_value_def mul_arr_mat_def bop2_def bcompat_def bdim_def bidx_def
      sum_axis1_def ncols_def upt_2)

lemma Auctioneer_single_item:
  "Auctioneer 2 1 (zero_auct 1) [[0], [1/2]] = Inr ([[1/4], [1/4]], [1/16, 1/16])"
  unfolding Auctioneer_def auct_alloc_single_item auct_pay_frac_single_item
  by (simp add: allocated_value_single_item bop1_def bcompat_def bdim_def bidx_def upt_2)

text \<open>
  For every valuation matrix with one column and more than one row, and for all
  parameters: the payment of bidder \<open>i\<close> is the bidder's fraction times the sum, over all
  bidders \<open>k\<close>, of \<open>vals[k,0] * alloc[i,0]\<close>.
\<close>

lemma payment_one_item_many_bidders:
  assumes b: "1 < bidders" and v: "has_shape vals bidders 1"
    and p: "auct_params_ok bidders 1 p"
  shows "\<exists>alloc pay. Auctioneer bidders 1 p vals = Inr (alloc, pay) \<and>
           (\<forall>i<bidders. pay ! i =
              pay_fracs bidders p vals ! i * (\<Sum>k\<leftarrow>[0..<bidders]. vals ! k ! 0 * alloc ! i ! 0))"
proof -
  have b0: "0 < bidders" using b by simp
  obtain alloc s where sh: "has_shape alloc bidders 1"
    and s: "allocated_value vals alloc = Inr s"
    and r: "Auctioneer bidders 1 p vals =
             Inr (alloc, map (\<lambda>i. pay_fracs bidders p vals ! i * s ! i) [0..<bidders])"
    using Auctioneer_ok[OF b0 v p] by blast
  have sv: "s = map (\<lambda>i. \<Sum>k\<leftarrow>[0..<bidders]. vals ! k ! 0 * alloc ! i ! 0) [0..<bidders]"
    using s b allocated_value_ok[OF b0 v sh] by simp
  show ?thesis
    using r by (simp add: sv)
qed

text \<open>
  Claim C2, at two bidders, one item, the valuations 0 and 1/2 and the all-zero
  networks: the payment of bidder 0 is 1/16, although the fraction is 1/2 and the
  bidder's allocated value is 0.
\<close>

theorem payment_single_item_two_bidders:
  "Auctioneer 2 1 (zero_auct 1) [[0], [1/2]] = Inr ([[1/4], [1/4]], [1/16, 1/16]) \<and>
   pay_fracs 2 (zero_auct 1) [[0], [1/2]] = [1/2, 1/2] \<and>
   spec_allocated_value [[0], [1/2]] [[1/4], [1/4]] 0 = 0 \<and>
   [1/16, 1/16] ! 0 \<noteq> (1/2) * spec_allocated_value [[0], [1/2]] [[1/4], [1/4]] 0"
  unfolding Auctioneer_single_item
  by (simp add: pay_fracs_def zero_auct_def sigmoid_0 upt_2 spec_allocated_value_def)

text \<open>
  Claim C5, at the same input, whose valuations are nonnegative: the payment of bidder
  0 exceeds the bidder's allocated value, and the value minus the payment is negative,
  while \<open>utility\<close> returns 1/16 for the bidder.
\<close>

theorem utility_single_item_two_bidders:
  "Auctioneer 2 1 (zero_auct 1) [[0], [1/2]] = Inr ([[1/4], [1/4]], [1/16, 1/16]) \<and>
   utility [[0], [1/2]] [[1/4], [1/4]] [1/16, 1/16] = Inr [1/16, 1/16] \<and>
   spec_allocated_value [[0], [1/2]] [[1/4], [1/4]] 0 < [1/16, 1/16] ! 0 \<and>
   spec_allocated_value [[0], [1/2]] [[1/4], [1/4]] 0 - [1/16, 1/16] ! 0 = - (1/16)"
  unfolding Auctioneer_single_item
  by (simp add: utility_def allocated_value_single_item bop1_def
      bcompat_def bdim_def bidx_def upt_2 spec_allocated_value_def)

section \<open>The profile a misreport is tried on\<close>

text \<open>
  Two bidders, two items and the all-zero networks, on any valuations: every entry of
  the allocation is 1/4, every fraction is 1/2, and so a bidder pays an eighth of the
  sum of the bidder's reported values; every misreport is 1/2.
\<close>

lemma Auctioneer_zero_2x2:
  "Auctioneer 2 2 (zero_auct 2) [[a, b], [c, d]] =
     Inr ([[1/4, 1/4], [1/4, 1/4]], [(a + b) / 8, (c + d) / 8])"
proof -
  have al: "auct_alloc 2 2 (zero_auct 2) [[a, b], [c, d]] = Inr [[1/4, 1/4], [1/4, 1/4]]"
    by (simp add: auct_alloc_def alloc_logits_def zero_auct_def stack0_def softmax0_def
        has_shape_def sigmoid_0 upt_2 Let_def eval_nat_numeral)
  have f: "auct_pay_frac 2 (zero_auct 2) [[a, b], [c, d]] = Inr [1/2, 1/2]"
    by (simp add: auct_pay_frac_def zero_auct_def stack1_def sigmoid_0 upt_2 Let_def
        assert_vec_def ncols_def)
  have s: "allocated_value [[a, b], [c, d]] [[1/4, 1/4], [1/4, 1/4]] = Inr [(a + b) / 4, (c + d) / 4]"
    by (simp add: allocated_value_def mul_arr_mat_def bop2_def bcompat_def bdim_def bidx_def
        sum_axis1_def ncols_def upt_2 add_divide_distrib)
  show ?thesis
    unfolding Auctioneer_def al f
    by (simp add: s bop1_def bcompat_def bdim_def bidx_def upt_2)
qed

lemma utility_2x2:
  "utility [[a, b], [c, d]] [[1/4, 1/4], [1/4, 1/4]] [p, q] =
     Inr [(a + b) / 4 - p, (c + d) / 4 - q]"
  by (simp add: utility_def allocated_value_def mul_arr_mat_def bop2_def bop1_def bcompat_def
      bdim_def bidx_def sum_axis1_def ncols_def upt_2 add_divide_distrib)

lemma Misreporter_zero_2x2:
  "Misreporter 2 2 (zero_misr 2) [[a, b], [c, d]] = Inr [[1/2, 1/2], [1/2, 1/2]]"
  by (simp add: Misreporter_def zero_misr_def stack0_def has_shape_def sigmoid_0 upt_2
      eval_nat_numeral)

lemma misr_utility_i_example:
  "misr_utility_i 2 2 (zero_auct 2) [[1/2, 1/2], [1/2, 1/2]] [[9/10, 9/10], [1/5, 3/10]] 0 =
     Inr (11/40)"
  "misr_utility_i 2 2 (zero_auct 2) [[1/2, 1/2], [1/2, 1/2]] [[9/10, 9/10], [1/5, 3/10]] 1 =
     Inr (3/80)"
  by (simp_all add: misr_utility_i_def misr_bidder_i_def has_shape_def Auctioneer_zero_2x2
      utility_2x2)

lemma spec_misr_utility_i_example:
  "spec_misr_utility_i 2 2 (zero_auct 2) [[1/2, 1/2], [1/2, 1/2]] [[9/10, 9/10], [1/5, 3/10]] 0 =
     Inr (13/40)"
  "spec_misr_utility_i 2 2 (zero_auct 2) [[1/2, 1/2], [1/2, 1/2]] [[9/10, 9/10], [1/5, 3/10]] 1 =
     Inr 0"
  by (simp_all add: spec_misr_utility_i_def spec_misr_profile_def Auctioneer_zero_2x2 utility_2x2)

lemma misr_utility_example:
  "misr_utility 2 2 (zero_auct 2) [[1/2, 1/2], [1/2, 1/2]] [[9/10, 9/10], [1/5, 3/10]] =
     Inr [11/40, 3/80]"
  unfolding misr_utility_def upt_2 collect.simps misr_utility_i_example by simp

text \<open>
  Claim C3, at the valuations \<open>[[9/10, 9/10], [1/5, 3/10]]\<close>. For bidder 0 the code
  replaces column 0 of the valuations by the misreports, the first item of both bidders,
  where the claim replaces row 0, both items of bidder 0. The utilities under the code's
  profiles are 11/40 and 3/80 and \<open>misr_loss\<close> returns \<open>-5/16\<close>; under the claim's
  profiles they are 13/40 and 0, whose negated sum is \<open>-13/40\<close>.
\<close>

theorem misr_loss_on_item_columns:
  "Misreporter 2 2 (zero_misr 2) [[9/10, 9/10], [1/5, 3/10]] = Inr [[1/2, 1/2], [1/2, 1/2]] \<and>
   misr_bidder_i [[9/10, 9/10], [1/5, 3/10]] [[1/2, 1/2], [1/2, 1/2]] 0 =
     Inr [[1/2, 9/10], [1/2, 3/10]] \<and>
   spec_misr_profile [[9/10, 9/10], [1/5, 3/10]] [[1/2, 1/2], [1/2, 1/2]] 0 =
     [[1/2, 1/2], [1/5, 3/10]] \<and>
   misr_utility 2 2 (zero_auct 2) [[1/2, 1/2], [1/2, 1/2]] [[9/10, 9/10], [1/5, 3/10]] =
     Inr [11/40, 3/80] \<and>
   spec_misr_utility_i 2 2 (zero_auct 2) [[1/2, 1/2], [1/2, 1/2]]
     [[9/10, 9/10], [1/5, 3/10]] 0 = Inr (13/40) \<and>
   spec_misr_utility_i 2 2 (zero_auct 2) [[1/2, 1/2], [1/2, 1/2]]
     [[9/10, 9/10], [1/5, 3/10]] 1 = Inr 0 \<and>
   misr_loss 2 2 (zero_misr 2) (zero_auct 2) [[9/10, 9/10], [1/5, 3/10]] = Inr (- (5/16)) \<and>
   - (5/16) \<noteq> - (13/40 + (0::real))"
  by (simp add: misr_loss_def Misreporter_zero_2x2 misr_utility_example
      spec_misr_utility_i_example(1) misr_bidder_i_def spec_misr_profile_def)
     (simp add: spec_misr_utility_i_def spec_misr_profile_def Auctioneer_zero_2x2 utility_2x2)

text \<open>
  Claim C1, at the same input. The truthful utilities are 9/40 and 1/16, the total
  payment is 23/80. The regrets under the code's profiles sum to 1/20, and \<open>auct_loss\<close>
  returns the loss for that total; the regrets under the claim's profiles sum to 1/10,
  which gives another loss.
\<close>

theorem auct_loss_regret_on_item_columns:
  "Auctioneer 2 2 (zero_auct 2) [[9/10, 9/10], [1/5, 3/10]] =
     Inr ([[1/4, 1/4], [1/4, 1/4]], [9/40, 1/16]) \<and>
   utility [[9/10, 9/10], [1/5, 3/10]] [[1/4, 1/4], [1/4, 1/4]] [9/40, 1/16] =
     Inr [9/40, 1/16] \<and>
   misr_utility 2 2 (zero_auct 2) [[1/2, 1/2], [1/2, 1/2]] [[9/10, 9/10], [1/5, 3/10]] =
     Inr [11/40, 3/80] \<and>
   auct_loss 2 2 (zero_auct 2) (zero_misr 2) [[9/10, 9/10], [1/5, 3/10]] =
     Inr (loss_of (23/80) (1/20)) \<and>
   spec_misr_utility_i 2 2 (zero_auct 2) [[1/2, 1/2], [1/2, 1/2]]
     [[9/10, 9/10], [1/5, 3/10]] 0 = Inr (13/40) \<and>
   spec_misr_utility_i 2 2 (zero_auct 2) [[1/2, 1/2], [1/2, 1/2]]
     [[9/10, 9/10], [1/5, 3/10]] 1 = Inr 0 \<and>
   relu (13/40 - 9/40) + relu (0 - 1/16) = 1/10 \<and>
   loss_of (23/80) (1/20) \<noteq> loss_of (23/80) (1/10)"
proof -
  have a: "Auctioneer 2 2 (zero_auct 2) [[9/10, 9/10], [1/5, 3/10]] =
     Inr ([[1/4, 1/4], [1/4, 1/4]], [9/40, 1/16])"
    unfolding Auctioneer_zero_2x2 by simp
  have u: "utility [[9/10, 9/10], [1/5, 3/10]] [[1/4, 1/4], [1/4, 1/4]] [9/40, 1/16] =
     Inr [9/40, 1/16]"
    unfolding utility_2x2 by simp
  have l: "auct_loss 2 2 (zero_auct 2) (zero_misr 2) [[9/10, 9/10], [1/5, 3/10]] =
     Inr (loss_of (23/80) (1/20))"
    by (simp add: auct_loss_def a Misreporter_zero_2x2 misr_utility_example
        u bop1_def bcompat_def bdim_def bidx_def upt_2 relu_def)
  have r: "relu (13/40 - 9/40) + relu (0 - 1/16) = 1/10"
    by (simp add: relu_def)
  have "sqrt (1/20) < sqrt (1/10)" by (simp add: real_sqrt_less_iff)
  then have "sqrt (1/20) + 1/20 \<noteq> sqrt (1/10) + 1/10" by linarith
  then have n: "loss_of (23/80) (1/20) \<noteq> loss_of (23/80) (1/10)"
    by (simp add: loss_of_def jnp_sqrt_def)
  show ?thesis
    by (intro conjI) (rule a, rule u, rule misr_utility_example,
        rule l, rule spec_misr_utility_i_example(1), rule spec_misr_utility_i_example(2),
        rule r, rule n)
qed

section \<open>The training loop\<close>

lemma misr_rounds_calls:
  "ls_calls (misr_rounds J tpal b n st) = ls_calls st @ replicate n (MisrUpdate b)"
  by (induction n arbitrary: st) (simp_all add: split_def Let_def replicate_app_Cons_same)

lemma misr_rounds_sampler:
  "ls_sampler (misr_rounds J tpal b n st) = ls_sampler st"
  by (induction n arbitrary: st) (simp_all add: split_def Let_def)

lemma log_part_zero: "log_part 0 step st = Inl (ZeroDivisionError, ls_calls st)"
  by (simp add: log_part_def)

text \<open>
  Claim C6, at the run \<^verbatim>\<open>training(50, 50, 500, 1000, 100, 10, 5, 200, 7)\<close>, for any
  operations of the libraries: \<open>log_every\<close> is 0, and the run raises
  \<open>ZeroDivisionError\<close> at the end of step 0, after the sample for the initial state,
  the batch, the reinitialisation with its sample, 50 misreporter updates and one
  auctioneer update. The steps 1 to 49 are not run.
\<close>

theorem training_short_run_raises:
  "\<exists>one batch one'.
     training J 50 50 500 1000 100 10 5 200 7 =
       Inl (ZeroDivisionError,
            [Sampled one, Sampled batch, Sampled one', Reinit] @
            replicate 50 (MisrUpdate batch) @ [AuctUpdate batch])"
proof -
  have u: "[0..(50::int) - 1] = 0 # [1..49]"
    by (simp add: upto_rec1)
  have s1: "\<exists>one s. sample J s0 1 = (Inr one, s)" for s0 :: "'a BidSampler"
    using sample_ok[of 1 J s0] by simp
  have s100: "\<exists>b s. sample J s0 100 = (Inr b, s)" for s0 :: "'a BidSampler"
    using sample_ok[of 100 J s0] by simp
  obtain rng' rng_sampler rng_state_init rng_misr_reinit where
    sp: "split4 J (PRNGKey J 1729) = (rng', rng_sampler, rng_state_init, rng_misr_reinit)"
    by (metis prod_cases4)
  obtain one sa where a: "sample J (BidSampler_init rng_sampler 10 5) 1 = (Inr one, sa)"
    using s1 by blast
  obtain batch sb where b: "sample J sa 100 = (Inr batch, sb)"
    using s100 by blast
  obtain one' sc where c: "sample J sb 1 = (Inr one', sc)"
    using s1 by blast
  have "training J 50 50 500 1000 100 10 5 200 7 =
       Inl (ZeroDivisionError,
            [Sampled one, Sampled batch, Sampled one', Reinit] @
            replicate 50 (MisrUpdate batch) @ [AuctUpdate batch])"
    unfolding training_def Let_def sp u
    by (simp add: a b c train_step_def reinit_part_def log_part_zero misr_rounds_calls
        initial_state_def reinit_misr_def split_def Let_def)
  then show ?thesis by blast
qed

section \<open>Payments and utilities with more than one item\<close>

lemma auct_alloc_entries:
  assumes b: "0 < bidders" and v: "has_shape vals bidders items"
    and p: "auct_params_ok bidders items p"
    and a: "auct_alloc bidders items p vals = Inr alloc"
  shows "has_shape alloc bidders items \<and>
         (\<forall>i<bidders. \<forall>j<items. 0 < alloc ! i ! j \<and> alloc ! i ! j < 1)"
proof -
  let ?sm = "softmax0 (alloc_logits bidders p vals)"
  let ?c = "\<lambda>j. sigmoid (alloc_prob p (ravel vals) ! j)"
  have al: "alloc = map (\<lambda>row. map (\<lambda>j. ?c j * row ! j) [0..<items]) ?sm"
    using a unfolding auct_alloc_ok[OF b v p] by simp
  have lsh: "has_shape (alloc_logits bidders p vals) bidders items"
    using p v by (simp add: auct_params_ok_def alloc_logits_shape)
  have ssh: "has_shape ?sm bidders items"
    using lsh by (rule softmax0_shape)
  have sh: "has_shape alloc bidders items"
    unfolding al using ssh by (simp add: has_shape_def list_all_iff)
  have "0 < alloc ! i ! j \<and> alloc ! i ! j < 1" if ij: "i < bidders" "j < items" for i j
  proof -
    have e: "alloc ! i ! j = ?c j * ?sm ! i ! j"
      unfolding al using ij ssh by (simp add: has_shape_def)
    have s: "0 < ?sm ! i ! j \<and> ?sm ! i ! j \<le> 1"
      by (rule softmax0_entry_bounds[OF lsh ij])
    have c: "0 < ?c j \<and> ?c j < 1"
      by (simp add: sigmoid_pos sigmoid_lt_1)
    have "?c j * ?sm ! i ! j \<le> ?c j"
      using mult_left_mono[of "?sm ! i ! j" 1 "?c j"] s c by simp
    then have "?c j * ?sm ! i ! j < 1" using c by linarith
    moreover have "0 < ?c j * ?sm ! i ! j" using s c by simp
    ultimately show ?thesis unfolding e by simp
  qed
  with sh show ?thesis by blast
qed

lemma spec_allocated_value_shape:
  "has_shape vals b k \<Longrightarrow> i < b \<Longrightarrow>
   spec_allocated_value vals alloc i = (\<Sum>j\<leftarrow>[0..<k]. vals ! i ! j * alloc ! i ! j)"
  by (simp add: spec_allocated_value_def nth_shape)

lemma pay_fracs_bounds:
  "i < bidders \<Longrightarrow> 0 < pay_fracs bidders p vals ! i \<and> pay_fracs bidders p vals ! i < 1"
  by (simp add: pay_fracs_def sigmoid_pos sigmoid_lt_1)

lemma Auctioneer_pay:
  assumes b: "0 < bidders" and v: "has_shape vals bidders items"
    and p: "auct_params_ok bidders items p"
    and d: "items \<noteq> 1 \<or> bidders = 1"
    and r: "Auctioneer bidders items p vals = Inr (alloc, pay)"
  shows "length pay = bidders \<and>
         (\<forall>i<bidders. pay ! i = pay_fracs bidders p vals ! i * spec_allocated_value vals alloc i)"
proof -
  obtain alloc' s where a: "auct_alloc bidders items p vals = Inr alloc'"
    and sh: "has_shape alloc' bidders items"
    and s: "allocated_value vals alloc' = Inr s"
    and r': "Auctioneer bidders items p vals =
             Inr (alloc', map (\<lambda>i. pay_fracs bidders p vals ! i * s ! i) [0..<bidders])"
    using Auctioneer_ok[OF b v p] by blast
  have eqs: "alloc' = alloc" "pay = map (\<lambda>i. pay_fracs bidders p vals ! i * s ! i) [0..<bidders]"
    using r r' by simp_all
  have sv: "s = map (\<lambda>i. \<Sum>j\<leftarrow>[0..<items]. vals ! i ! j * alloc ! i ! j) [0..<bidders]"
    using s d allocated_value_ok[OF b v sh] unfolding eqs(1) by auto
  have "pay ! i = pay_fracs bidders p vals ! i * spec_allocated_value vals alloc i"
    if "i < bidders" for i
    using that by (simp add: eqs(2) sv spec_allocated_value_shape[OF v that])
  then show ?thesis by (simp add: eqs(2))
qed

text \<open>
  What the auctioneer pays out where the squeeze is harmless: with more than one item,
  or with a single bidder, the payment of every bidder is the bidder's fraction, strictly
  between 0 and 1, times the bidder's own allocated value.
\<close>

theorem payment_is_fraction_of_value:
  assumes b: "0 < bidders" and v: "has_shape vals bidders items"
    and p: "auct_params_ok bidders items p"
    and d: "items \<noteq> 1 \<or> bidders = 1"
  shows "\<exists>alloc pay. Auctioneer bidders items p vals = Inr (alloc, pay) \<and>
           has_shape alloc bidders items \<and> length pay = bidders \<and>
           (\<forall>i<bidders.
              pay ! i = pay_fracs bidders p vals ! i * spec_allocated_value vals alloc i \<and>
              0 < pay_fracs bidders p vals ! i \<and> pay_fracs bidders p vals ! i < 1)"
proof -
  obtain alloc s where a: "auct_alloc bidders items p vals = Inr alloc"
    and sh: "has_shape alloc bidders items"
    and r: "Auctioneer bidders items p vals =
             Inr (alloc, map (\<lambda>i. pay_fracs bidders p vals ! i * s ! i) [0..<bidders])"
    using Auctioneer_ok[OF b v p] by blast
  from Auctioneer_pay[OF b v p d r] r sh pay_fracs_bounds show ?thesis by blast
qed


lemma utility_ok:
  assumes "allocated_value vals alloc = Inr s" "length s = n" "length pay = n"
  shows "utility vals alloc pay = Inr (map (\<lambda>i. s ! i - pay ! i) [0..<n])"
  using assms bop1_same_length[of s n pay "(-)"] by (simp add: utility_def)

text \<open>
  Under the same condition and for nonnegative valuations, every payment lies between 0
  and the bidder's allocated value, and \<open>utility\<close> returns the value minus the payment,
  which is nonnegative.
\<close>

theorem truthful_utility_nonneg:
  assumes b: "0 < bidders" and v: "has_shape vals bidders items"
    and p: "auct_params_ok bidders items p"
    and d: "items \<noteq> 1 \<or> bidders = 1"
    and nn: "list_all (list_all (\<lambda>x. 0 \<le> x)) vals"
  shows "\<exists>alloc pay u. Auctioneer bidders items p vals = Inr (alloc, pay) \<and>
           utility vals alloc pay = Inr u \<and> length u = bidders \<and>
           (\<forall>i<bidders.
              0 \<le> pay ! i \<and> pay ! i \<le> spec_allocated_value vals alloc i \<and>
              u ! i = spec_allocated_value vals alloc i - pay ! i \<and> 0 \<le> u ! i)"
proof -
  obtain alloc s where a: "auct_alloc bidders items p vals = Inr alloc"
    and sh: "has_shape alloc bidders items"
    and s: "allocated_value vals alloc = Inr s" and ls: "length s = bidders"
    and r: "Auctioneer bidders items p vals =
             Inr (alloc, map (\<lambda>i. pay_fracs bidders p vals ! i * s ! i) [0..<bidders])"
    using Auctioneer_ok[OF b v p] by blast
  let ?pay = "map (\<lambda>i. pay_fracs bidders p vals ! i * s ! i) [0..<bidders]"
  let ?u = "map (\<lambda>i. s ! i - ?pay ! i) [0..<bidders]"
  have lp: "length ?pay = bidders" by simp
  have pay: "\<forall>i<bidders. ?pay ! i = pay_fracs bidders p vals ! i * spec_allocated_value vals alloc i"
    using Auctioneer_pay[OF b v p d r] by blast
  have sv: "s ! i = spec_allocated_value vals alloc i" if "i < bidders" for i
    using s d that allocated_value_ok[OF b v sh]
    by (auto simp: spec_allocated_value_shape[OF v that])
  have u: "utility vals alloc ?pay = Inr ?u"
    by (rule utility_ok[OF s ls lp])
  have ent: "0 < alloc ! i ! j" if "i < bidders" "j < items" for i j
    using auct_alloc_entries[OF b v p a] that by blast
  have vnn: "0 \<le> vals ! i ! j" if "i < bidders" "j < items" for i j
    using nn v that by (simp add: has_shape_def list_all_length)
  have val_nn: "0 \<le> spec_allocated_value vals alloc i" if i: "i < bidders" for i
    unfolding spec_allocated_value_shape[OF v i]
    by (rule sum_list_nonneg) (use ent[OF i] vnn[OF i] in \<open>auto simp: less_imp_le\<close>)
  have lu: "length ?u = bidders" by simp
  have each: "0 \<le> ?pay ! i \<and> ?pay ! i \<le> spec_allocated_value vals alloc i \<and>
        ?u ! i = spec_allocated_value vals alloc i - ?pay ! i \<and> 0 \<le> ?u ! i"
    if i: "i < bidders" for i
  proof -
    let ?f = "pay_fracs bidders p vals ! i"
    let ?V = "spec_allocated_value vals alloc i"
    have f: "0 < ?f \<and> ?f < 1" by (rule pay_fracs_bounds[OF i])
    have pe: "?pay ! i = ?f * ?V" using pay i by blast
    have V: "0 \<le> ?V" by (rule val_nn[OF i])
    have p0: "0 \<le> ?f * ?V" using f V by simp
    have p1: "?f * ?V \<le> ?V" using mult_right_mono[of ?f 1 ?V] f V by simp
    have ue: "?u ! i = ?V - ?pay ! i" using i sv[OF i] by simp
    show ?thesis unfolding ue pe using p0 p1 by simp
  qed
  then have all: "\<forall>i<bidders. 0 \<le> ?pay ! i \<and> ?pay ! i \<le> spec_allocated_value vals alloc i \<and>
        ?u ! i = spec_allocated_value vals alloc i - ?pay ! i \<and> 0 \<le> ?u ! i"
    by blast
  show ?thesis
    by (intro exI[of _ alloc] exI[of _ ?pay] exI[of _ ?u] conjI) (rule r, rule u, rule lu, rule all)
qed

lemma Auctioneer_two_by_two:
  "Auctioneer 2 2 (zero_auct 2) [[1/4, 1/2], [3/4, 0]] =
     Inr ([[1/4, 1/4], [1/4, 1/4]], [3/32, 3/32])"
proof -
  have a: "auct_alloc 2 2 (zero_auct 2) [[1/4, 1/2], [3/4, 0]] = Inr [[1/4, 1/4], [1/4, 1/4]]"
    by (simp add: auct_alloc_def alloc_logits_def zero_auct_def stack0_def softmax0_def
        has_shape_def sigmoid_0 upt_2 Let_def eval_nat_numeral)
  have f: "auct_pay_frac 2 (zero_auct 2) [[1/4, 1/2], [3/4, 0]] = Inr [1/2, 1/2]"
    by (simp add: auct_pay_frac_def zero_auct_def stack1_def sigmoid_0 upt_2 Let_def
        assert_vec_def ncols_def)
  have s: "allocated_value [[1/4, 1/2], [3/4, 0]] [[1/4, 1/4], [1/4, 1/4]] = Inr [3/16, 3/16]"
    by (simp add: allocated_value_def mul_arr_mat_def bop2_def bcompat_def bdim_def bidx_def
        sum_axis1_def ncols_def upt_2)
  show ?thesis
    unfolding Auctioneer_def a f
    by (simp add: s bop1_def bcompat_def bdim_def bidx_def upt_2)
qed

text \<open>The two theorems at two bidders, two items and the all-zero networks.\<close>

theorem payment_is_fraction_of_value_witness:
  "(0::nat) < 2 \<and> has_shape [[1/4, 1/2], [3/4, 0]] 2 2 \<and> auct_params_ok 2 2 (zero_auct 2) \<and>
   ((2::nat) \<noteq> 1 \<or> (2::nat) = 1) \<and>
   Auctioneer 2 2 (zero_auct 2) [[1/4, 1/2], [3/4, 0]] =
     Inr ([[1/4, 1/4], [1/4, 1/4]], [3/32, 3/32]) \<and>
   [3/32, 3/32] ! 0 =
     pay_fracs 2 (zero_auct 2) [[1/4, 1/2], [3/4, 0]] ! 0 *
     spec_allocated_value [[1/4, 1/2], [3/4, 0]] [[1/4, 1/4], [1/4, 1/4]] 0"
proof -
  have h1: "(0::nat) < 2" by simp
  have h2: "has_shape [[1/4, 1/2], [3/4, 0]] 2 2" by (simp add: has_shape_def)
  have h3: "auct_params_ok 2 2 (zero_auct 2)"
    by (simp add: auct_params_ok_def mlp_out_def zero_auct_def)
  have h4: "(2::nat) \<noteq> 1 \<or> (2::nat) = 1" by simp
  obtain alloc pay where
    r: "Auctioneer 2 2 (zero_auct 2) [[1/4, 1/2], [3/4, 0]] = Inr (alloc, pay)"
    and e: "\<forall>i<2. pay ! i = pay_fracs 2 (zero_auct 2) [[1/4, 1/2], [3/4, 0]] ! i *
                  spec_allocated_value [[1/4, 1/2], [3/4, 0]] alloc i \<and>
                  0 < pay_fracs 2 (zero_auct 2) [[1/4, 1/2], [3/4, 0]] ! i \<and>
                  pay_fracs 2 (zero_auct 2) [[1/4, 1/2], [3/4, 0]] ! i < 1"
    using payment_is_fraction_of_value[OF h1 h2 h3 h4] by blast
  have v: "alloc = [[1/4, 1/4], [1/4, 1/4]]" "pay = [3/32, 3/32]"
    using r unfolding Auctioneer_two_by_two by simp_all
  have "pay ! 0 = pay_fracs 2 (zero_auct 2) [[1/4, 1/2], [3/4, 0]] ! 0 *
                  spec_allocated_value [[1/4, 1/2], [3/4, 0]] alloc 0"
    using e by simp
  then show ?thesis
    unfolding v using h2 h3 Auctioneer_two_by_two by simp
qed

theorem truthful_utility_nonneg_witness:
  "(0::nat) < 2 \<and> has_shape [[1/4, 1/2], [3/4, 0]] 2 2 \<and> auct_params_ok 2 2 (zero_auct 2) \<and>
   ((2::nat) \<noteq> 1 \<or> (2::nat) = 1) \<and>
   list_all (list_all (\<lambda>x. 0 \<le> x)) [[1/4, 1/2], [3/4, 0::real]] \<and>
   (\<exists>u. utility [[1/4, 1/2], [3/4, 0]] [[1/4, 1/4], [1/4, 1/4]] [3/32, 3/32] = Inr u \<and>
        0 \<le> u ! 0 \<and> 0 \<le> u ! 1 \<and>
        [3/32, 3/32] ! 1 \<le> spec_allocated_value [[1/4, 1/2], [3/4, 0]] [[1/4, 1/4], [1/4, 1/4]] 1)"
proof -
  have h1: "(0::nat) < 2" by simp
  have h2: "has_shape [[1/4, 1/2], [3/4, 0]] 2 2" by (simp add: has_shape_def)
  have h3: "auct_params_ok 2 2 (zero_auct 2)"
    by (simp add: auct_params_ok_def mlp_out_def zero_auct_def)
  have h4: "(2::nat) \<noteq> 1 \<or> (2::nat) = 1" by simp
  have h5: "list_all (list_all (\<lambda>x. 0 \<le> x)) [[1/4, 1/2], [3/4, 0::real]]" by simp
  obtain alloc pay u where
    r: "Auctioneer 2 2 (zero_auct 2) [[1/4, 1/2], [3/4, 0]] = Inr (alloc, pay)"
    and u: "utility [[1/4, 1/2], [3/4, 0]] alloc pay = Inr u"
    and e: "\<forall>i<2. 0 \<le> pay ! i \<and>
              pay ! i \<le> spec_allocated_value [[1/4, 1/2], [3/4, 0]] alloc i \<and>
              u ! i = spec_allocated_value [[1/4, 1/2], [3/4, 0]] alloc i - pay ! i \<and>
              0 \<le> u ! i"
    using truthful_utility_nonneg[OF h1 h2 h3 h4 h5] by blast
  have v: "alloc = [[1/4, 1/4], [1/4, 1/4]]" "pay = [3/32, 3/32]"
    using r unfolding Auctioneer_two_by_two by simp_all
  have e0: "0 \<le> u ! 0" using e by simp
  have e1: "0 \<le> u ! 1 \<and> pay ! 1 \<le> spec_allocated_value [[1/4, 1/2], [3/4, 0]] alloc 1"
    using e[rule_format, of 1] by simp
  show ?thesis
    using h2 h3 h5 u e0 e1 unfolding v by simp
qed

section \<open>The losses\<close>

lemma splice_column:
  assumes "length m = length v"
  shows "take i v @ take 1 (drop i m) @ drop (i + 1) v = v[i := m ! i]"
proof (cases "i < length v")
  case True
  then have "take 1 (drop i m) = [m ! i]"
    using assms by (simp add: take_Suc_conv_app_nth)
  then show ?thesis
    using True assms by (simp add: upd_conv_take_nth_drop)
next
  case False
  then show ?thesis using assms by (simp add: list_update_beyond)
qed

lemma splice_column_Suc:
  "length m = length v \<Longrightarrow>
   take i v @ take (Suc 0) (drop i m) @ drop (Suc i) v = v[i := m ! i]"
  using splice_column[of m v i] by simp

lemma misr_bidder_i_ok:
  assumes v: "has_shape vals b k" and m: "has_shape misrs b k"
  shows "misr_bidder_i vals misrs i = Inr (map (\<lambda>(v, m). v[i := m ! i]) (zip vals misrs))"
proof -
  have len: "length misrs = length vals" using v m by (simp add: has_shape_def)
  have rows: "\<forall>(x, y)\<in>set (zip vals misrs). length x = k \<and> length y = k"
    using v m by (auto simp: has_shape_def list_all_iff dest: set_zip_leftD set_zip_rightD)
  have eq: "map (\<lambda>(v, m). take i v @ take 1 (drop i m) @ drop (i + 1) v) (zip vals misrs) =
            map (\<lambda>(v, m). v[i := m ! i]) (zip vals misrs)"
    by (rule map_cong[OF refl]) (use rows in \<open>auto simp: splice_column_Suc\<close>)
  have ml: "map length (map (\<lambda>(v, m). v[i := m ! i]) (zip vals misrs)) = map length vals"
    using len by (induction vals misrs rule: list_induct2') auto
  show ?thesis
    unfolding misr_bidder_i_def Let_def eq using len ml by simp
qed

lemma misr_profile_shape:
  assumes v: "has_shape vals b k" and m: "has_shape misrs b k"
  shows "has_shape (map (\<lambda>(v, m). v[i := m ! i]) (zip vals misrs)) b k"
  using v m by (auto simp: has_shape_def list_all_iff dest: set_zip_leftD)

text \<open>
  What \<open>misr_bidder_i\<close> builds from valuations and misreports of the same shape: the
  valuations with column \<open>i\<close> taken from the misreports, for every bidder; with no
  column \<open>i\<close>, the valuations themselves.
\<close>

theorem misr_bidder_i_replaces_item_column:
  assumes v: "has_shape vals b k" and m: "has_shape misrs b k"
  shows "\<exists>V. misr_bidder_i vals misrs i = Inr V \<and> has_shape V b k \<and>
           (\<forall>r<b. \<forall>j<k. V ! r ! j = (if j = i then misrs ! r ! j else vals ! r ! j)) \<and>
           (k \<le> i \<longrightarrow> V = vals)"
proof -
  let ?V = "map (\<lambda>(v, m). v[i := m ! i]) (zip vals misrs)"
  have lv: "length vals = b" and lm: "length misrs = b"
    using v m by (simp_all add: has_shape_def)
  have ent: "?V ! r ! j = (if j = i then misrs ! r ! j else vals ! r ! j)"
    if "r < b" "j < k" for r j
    using that lv lm nth_shape[OF v that(1)] by (simp add: nth_list_update)
  have same: "?V = vals" if "k \<le> i"
  proof (rule nth_equalityI)
    show "length ?V = length vals" using lv lm by simp
    show "?V ! r = vals ! r" if "r < length ?V" for r
      using that \<open>k \<le> i\<close> lv lm nth_shape[OF v, of r] by (simp add: list_update_beyond)
  qed
  show ?thesis
    using misr_bidder_i_ok[OF v m, of i] misr_profile_shape[OF v m, of i] ent same by blast
qed

theorem misr_bidder_i_replaces_item_column_witness:
  "has_shape [[1/10, 2/10], [3/10, 4/10]] 2 2 \<and> has_shape [[5/10, 6/10], [7/10, 8/10]] 2 2 \<and>
   (\<exists>V. misr_bidder_i [[1/10, 2/10], [3/10, 4/10]] [[5/10, 6/10], [7/10, 8/10]] 1 = Inr V \<and>
        V ! 0 ! 1 = 6/10 \<and> V ! 1 ! 1 = 8/10 \<and> V ! 0 ! 0 = 1/10 \<and> V ! 1 ! 0 = 3/10)"
proof -
  have h1: "has_shape [[1/10, 2/10], [3/10, 4/10]] 2 2" by (simp add: has_shape_def)
  have h2: "has_shape [[5/10, 6/10], [7/10, 8/10]] 2 2" by (simp add: has_shape_def)
  obtain V where r: "misr_bidder_i [[1/10, 2/10], [3/10, 4/10]] [[5/10, 6/10], [7/10, 8/10]] 1 = Inr V"
    and e: "\<forall>r<2. \<forall>j<2. V ! r ! j =
              (if j = 1 then [[5/10, 6/10], [7/10, 8/10]] ! r ! j
               else [[1/10, 2/10], [3/10, 4/10::real]] ! r ! j)"
    using misr_bidder_i_replaces_item_column[OF h1 h2, of 1] by blast
  have "V ! 0 ! 1 = 6/10" "V ! 1 ! 1 = 8/10" "V ! 0 ! 0 = 1/10" "V ! 1 ! 0 = 3/10"
    using e[rule_format, of 0 1] e[rule_format, of 1 1] e[rule_format, of 0 0]
      e[rule_format, of 1 0] by simp_all
  then show ?thesis using h1 h2 r by simp
qed

text \<open>
  The loss of line 321 as a function of a nonnegative total payment and a nonnegative
  total regret: it is a number, it decreases strictly when the payment grows and
  increases strictly when the regret grows.
\<close>

theorem loss_of_monotone:
  assumes "0 \<le> P" "P < P'" "0 \<le> R" "R < R'"
  shows "\<exists>a b c. loss_of P R = Some a \<and> loss_of P' R = Some b \<and> loss_of P R' = Some c \<and>
           a = - (sqrt P - sqrt R) + R \<and> b < a \<and> a < c"
proof -
  have sp: "sqrt P < sqrt P'" using assms by simp
  have sr: "sqrt R < sqrt R'" using assms by simp
  have l1: "loss_of P R = Some (- (sqrt P - sqrt R) + R)"
    using assms by (simp add: loss_of_def jnp_sqrt_def)
  have l2: "loss_of P' R = Some (- (sqrt P' - sqrt R) + R)"
    using assms by (simp add: loss_of_def jnp_sqrt_def)
  have l3: "loss_of P R' = Some (- (sqrt P - sqrt R') + R')"
    using assms by (simp add: loss_of_def jnp_sqrt_def)
  have d: "- (sqrt P' - sqrt R) + R < - (sqrt P - sqrt R) + R"
    using sp by linarith
  have i: "- (sqrt P - sqrt R) + R < - (sqrt P - sqrt R') + R'"
    using sr assms(4) by linarith
  show ?thesis
    by (intro exI conjI) (rule l1, rule l2, rule l3, rule refl, rule d, rule i)
qed

theorem loss_of_monotone_witness:
  "(0::real) \<le> 1 \<and> (1::real) < 4 \<and> (0::real) \<le> 0 \<and> (0::real) < 1 \<and>
   loss_of 1 0 = Some (- 1) \<and> loss_of 4 0 = Some (- 2) \<and> loss_of 1 1 = Some 1 \<and>
   (\<exists>a b c. loss_of 1 0 = Some a \<and> loss_of 4 0 = Some b \<and> loss_of 1 1 = Some c \<and>
      b < a \<and> a < c)"
proof -
  have h: "(0::real) \<le> 1" "(1::real) < 4" "(0::real) \<le> 0" "(0::real) < 1" by simp_all
  have ex: "\<exists>a b c. loss_of 1 0 = Some a \<and> loss_of 4 0 = Some b \<and> loss_of 1 1 = Some c \<and>
      b < a \<and> a < c"
    using loss_of_monotone[OF h] by blast
  have v: "loss_of 1 0 = Some (- 1)" "loss_of 4 0 = Some (- 2)" "loss_of 1 1 = Some 1"
    by (simp_all add: loss_of_def jnp_sqrt_def)
  show ?thesis
    by (intro conjI) (rule h(1), rule h(2), rule h(3), rule h(4), rule v(1), rule v(2),
        rule v(3), rule ex)
qed

lemma loss_of_nan: "P < 0 \<Longrightarrow> loss_of P R = None"
  by (simp add: loss_of_def jnp_sqrt_def)

lemma collect_total:
  "(\<forall>i\<in>set ns. \<exists>x. f i = Inr x) \<Longrightarrow>
   \<exists>xs. collect f ns = Inr xs \<and> length xs = length ns \<and>
        (\<forall>n<length ns. f (ns ! n) = Inr (xs ! n))"
proof (induction ns)
  case Nil
  then show ?case by simp
next
  case (Cons i ns)
  then obtain x where x: "f i = Inr x" by auto
  from Cons obtain xs where xs: "collect f ns = Inr xs" "length xs = length ns"
    "\<forall>n<length ns. f (ns ! n) = Inr (xs ! n)" by auto
  have "\<forall>n<length (i # ns). f ((i # ns) ! n) = Inr ((x # xs) ! n)"
    using x xs(3) by (auto simp: nth_Cons split: nat.splits)
  then show ?case using x xs by auto
qed

lemma misr_utility_i_ok:
  assumes b: "0 < bidders" and v: "has_shape vals bidders items"
    and p: "auct_params_ok bidders items p"
    and m: "has_shape misreports bidders items"
  shows "\<exists>V alloc_m pay_m u. misr_bidder_i vals misreports i = Inr V \<and>
           has_shape V bidders items \<and>
           Auctioneer bidders items p V = Inr (alloc_m, pay_m) \<and>
           utility vals alloc_m pay_m = Inr u \<and> length u = bidders \<and>
           misr_utility_i bidders items p misreports vals i = Inr (u ! i)"
proof -
  let ?V = "map (\<lambda>(v, m). v[i := m ! i]) (zip vals misreports)"
  have V: "misr_bidder_i vals misreports i = Inr ?V" by (rule misr_bidder_i_ok[OF v m])
  have Vs: "has_shape ?V bidders items" by (rule misr_profile_shape[OF v m])
  obtain alloc_m s_m where sh: "has_shape alloc_m bidders items"
    and r: "Auctioneer bidders items p ?V =
             Inr (alloc_m, map (\<lambda>i. pay_fracs bidders p ?V ! i * s_m ! i) [0..<bidders])"
    using Auctioneer_ok[OF b Vs p] by blast
  let ?pay = "map (\<lambda>i. pay_fracs bidders p ?V ! i * s_m ! i) [0..<bidders]"
  obtain s where s: "allocated_value vals alloc_m = Inr s"
    using allocated_value_ok[OF b v sh] by blast
  have ls: "length s = bidders" by (rule allocated_value_length[OF b v sh s])
  have lp: "length ?pay = bidders" by simp
  let ?u = "map (\<lambda>i. s ! i - ?pay ! i) [0..<bidders]"
  have u: "utility vals alloc_m ?pay = Inr ?u" by (rule utility_ok[OF s ls lp])
  have lu: "length ?u = bidders" by simp
  have mu: "misr_utility_i bidders items p misreports vals i = Inr (?u ! i)"
    unfolding misr_utility_i_def V using Vs r u by simp
  show ?thesis
    by (intro exI[of _ ?V] exI[of _ alloc_m] exI[of _ ?pay] exI[of _ ?u] conjI)
       (rule V, rule Vs, rule r, rule u, rule lu, rule mu)
qed

lemma misr_utility_ok:
  assumes b: "0 < bidders" and v: "has_shape vals bidders items"
    and p: "auct_params_ok bidders items p"
    and m: "has_shape misreports bidders items"
  shows "\<exists>u_misr. misr_utility bidders items p misreports vals = Inr u_misr \<and>
           length u_misr = bidders \<and>
           (\<forall>i<bidders. misr_utility_i bidders items p misreports vals i = Inr (u_misr ! i))"
proof -
  have "\<forall>i\<in>set [0..<bidders]. \<exists>x. misr_utility_i bidders items p misreports vals i = Inr x"
    using misr_utility_i_ok[OF b v p m] by blast
  from collect_total[OF this]
  obtain xs where xs: "collect (misr_utility_i bidders items p misreports vals) [0..<bidders] = Inr xs"
    "length xs = bidders"
    "\<forall>n<bidders. misr_utility_i bidders items p misreports vals ([0..<bidders] ! n) = Inr (xs ! n)"
    by auto
  have ne: "xs \<noteq> []" using xs(2) b by auto
  have "\<forall>i<bidders. misr_utility_i bidders items p misreports vals i = Inr (xs ! i)"
    using xs(3) by simp
  then show ?thesis
    using xs(1,2) ne by (simp add: misr_utility_def)
qed

text \<open>
  \<open>auct_loss\<close> returns for every profile of shape (bidders, items): the loss of line 321
  on the total payment of the truthful auction and the total of the regrets
  \<open>relu (u_misr ! i - u_truth ! i)\<close>, each nonnegative, where \<open>u_misr ! i\<close> is entry \<open>i\<close>
  of the utilities under the auction run on the profile \<open>misr_bidder_i\<close> builds for \<open>i\<close>.
\<close>

theorem auct_loss_value:
  assumes b: "0 < bidders" and v: "has_shape vals bidders items"
    and ap: "auct_params_ok bidders items ap" and mp: "misr_params_ok bidders items mp"
  shows "\<exists>alloc pay misreports u_misr u_truth.
           Auctioneer bidders items ap vals = Inr (alloc, pay) \<and>
           Misreporter bidders items mp vals = Inr misreports \<and>
           misr_utility bidders items ap misreports vals = Inr u_misr \<and>
           utility vals alloc pay = Inr u_truth \<and>
           length u_misr = bidders \<and> length u_truth = bidders \<and>
           auct_loss bidders items ap mp vals =
             Inr (loss_of (sum_list pay)
                    (\<Sum>i\<leftarrow>[0..<bidders]. relu (u_misr ! i - u_truth ! i))) \<and>
           (\<forall>i<bidders. 0 \<le> relu (u_misr ! i - u_truth ! i)) \<and>
           (\<forall>i<bidders. \<exists>V alloc_m pay_m u.
              misr_bidder_i vals misreports i = Inr V \<and>
              Auctioneer bidders items ap V = Inr (alloc_m, pay_m) \<and>
              utility vals alloc_m pay_m = Inr u \<and> u_misr ! i = u ! i)"
proof -
  obtain alloc s where sh: "has_shape alloc bidders items"
    and s: "allocated_value vals alloc = Inr s" and ls: "length s = bidders"
    and r: "Auctioneer bidders items ap vals =
             Inr (alloc, map (\<lambda>i. pay_fracs bidders ap vals ! i * s ! i) [0..<bidders])"
    using Auctioneer_ok[OF b v ap] by blast
  let ?pay = "map (\<lambda>i. pay_fracs bidders ap vals ! i * s ! i) [0..<bidders]"
  have lp: "length ?pay = bidders" by simp
  let ?ut = "map (\<lambda>i. s ! i - ?pay ! i) [0..<bidders]"
  have ut: "utility vals alloc ?pay = Inr ?ut" by (rule utility_ok[OF s ls lp])
  have lut: "length ?ut = bidders" by simp
  let ?m = "map (\<lambda>i. map sigmoid (misr_mlp mp (ravel (permute_along_bidders vals i)))) [0..<bidders]"
  have mr: "Misreporter bidders items mp vals = Inr ?m" by (rule Misreporter_ok[OF b v mp])
  have len: "length (misr_mlp mp (ravel (permute_along_bidders vals i))) = items" for i
    using mlp_out_permute[OF mp[unfolded misr_params_ok_def] v] by simp
  have ms: "has_shape ?m bidders items"
    using len by (simp add: has_shape_def list_all_iff)
  obtain u_misr where um: "misr_utility bidders items ap ?m vals = Inr u_misr"
    and lum: "length u_misr = bidders"
    and each: "\<forall>i<bidders. misr_utility_i bidders items ap ?m vals i = Inr (u_misr ! i)"
    using misr_utility_ok[OF b v ap ms] by blast
  have d: "bop1 (-) u_misr ?ut = Inr (map (\<lambda>i. u_misr ! i - ?ut ! i) [0..<bidders])"
    by (rule bop1_same_length[OF lum lut])
  have loss: "auct_loss bidders items ap mp vals =
             Inr (loss_of (sum_list ?pay)
                    (\<Sum>i\<leftarrow>[0..<bidders]. relu (u_misr ! i - ?ut ! i)))"
    unfolding auct_loss_def r mr using um ut d by (simp add: Let_def comp_def)
  have nn: "\<forall>i<bidders. 0 \<le> relu (u_misr ! i - ?ut ! i)"
    by (simp add: relu_def)
  have prof: "\<forall>i<bidders. \<exists>V alloc_m pay_m u.
              misr_bidder_i vals ?m i = Inr V \<and>
              Auctioneer bidders items ap V = Inr (alloc_m, pay_m) \<and>
              utility vals alloc_m pay_m = Inr u \<and> u_misr ! i = u ! i"
  proof (intro allI impI)
    fix i assume i: "i < bidders"
    obtain V alloc_m pay_m u where
      "misr_bidder_i vals ?m i = Inr V" "Auctioneer bidders items ap V = Inr (alloc_m, pay_m)"
      "utility vals alloc_m pay_m = Inr u"
      "misr_utility_i bidders items ap ?m vals i = Inr (u ! i)"
      using misr_utility_i_ok[OF b v ap ms, of i] by blast
    moreover have "u_misr ! i = u ! i" using each i calculation(4) by simp
    ultimately show "\<exists>V alloc_m pay_m u.
              misr_bidder_i vals ?m i = Inr V \<and>
              Auctioneer bidders items ap V = Inr (alloc_m, pay_m) \<and>
              utility vals alloc_m pay_m = Inr u \<and> u_misr ! i = u ! i" by blast
  qed
  show ?thesis
    by (intro exI[of _ alloc] exI[of _ ?pay] exI[of _ ?m] exI[of _ u_misr] exI[of _ ?ut] conjI)
       (rule r, rule mr, rule um, rule ut, rule lum, rule lut, rule loss, rule nn, rule prof)
qed

theorem auct_loss_value_witness:
  "(0::nat) < 2 \<and> has_shape [[1/4, 1/2], [3/4, 0]] 2 2 \<and> auct_params_ok 2 2 (zero_auct 2) \<and>
   misr_params_ok 2 2 (zero_misr 2) \<and>
   (\<exists>u_misr u_truth.
      utility [[1/4, 1/2], [3/4, 0]] [[1/4, 1/4], [1/4, 1/4]] [3/32, 3/32] = Inr u_truth \<and>
      auct_loss 2 2 (zero_auct 2) (zero_misr 2) [[1/4, 1/2], [3/4, 0]] =
        Inr (loss_of (sum_list [3/32, 3/32])
               (\<Sum>i\<leftarrow>[0..<2]. relu (u_misr ! i - u_truth ! i))))"
proof -
  have h1: "(0::nat) < 2" by simp
  have h2: "has_shape [[1/4, 1/2], [3/4, 0]] 2 2" by (simp add: has_shape_def)
  have h3: "auct_params_ok 2 2 (zero_auct 2)"
    by (simp add: auct_params_ok_def mlp_out_def zero_auct_def)
  have h4: "misr_params_ok 2 2 (zero_misr 2)"
    by (simp add: misr_params_ok_def mlp_out_def zero_misr_def)
  obtain alloc pay u_misr u_truth where
    r: "Auctioneer 2 2 (zero_auct 2) [[1/4, 1/2], [3/4, 0]] = Inr (alloc, pay)"
    and u: "utility [[1/4, 1/2], [3/4, 0]] alloc pay = Inr u_truth"
    and l: "auct_loss 2 2 (zero_auct 2) (zero_misr 2) [[1/4, 1/2], [3/4, 0]] =
             Inr (loss_of (sum_list pay) (\<Sum>i\<leftarrow>[0..<2]. relu (u_misr ! i - u_truth ! i)))"
    using auct_loss_value[OF h1 h2 h3 h4] by blast
  have v: "alloc = [[1/4, 1/4], [1/4, 1/4]]" "pay = [3/32, 3/32]"
    using r unfolding Auctioneer_two_by_two by simp_all
  have "\<exists>u_misr u_truth.
      utility [[1/4, 1/2], [3/4, 0]] [[1/4, 1/4], [1/4, 1/4]] [3/32, 3/32] = Inr u_truth \<and>
      auct_loss 2 2 (zero_auct 2) (zero_misr 2) [[1/4, 1/2], [3/4, 0]] =
        Inr (loss_of (sum_list [3/32, 3/32])
               (\<Sum>i\<leftarrow>[0..<2]. relu (u_misr ! i - u_truth ! i)))"
    using u l unfolding v by blast
  then show ?thesis
    by (intro conjI) (rule h1, rule h2, rule h3, rule h4)
qed

text \<open>
  \<open>misr_loss\<close> returns, for every profile of shape (bidders, items), the negated sum of
  these utilities.
\<close>

theorem misr_loss_value:
  assumes b: "0 < bidders" and v: "has_shape vals bidders items"
    and ap: "auct_params_ok bidders items ap" and mp: "misr_params_ok bidders items mp"
  shows "\<exists>misreports u_misr.
           Misreporter bidders items mp vals = Inr misreports \<and>
           misr_utility bidders items ap misreports vals = Inr u_misr \<and>
           length u_misr = bidders \<and>
           misr_loss bidders items mp ap vals = Inr (- (\<Sum>i\<leftarrow>[0..<bidders]. u_misr ! i)) \<and>
           (\<forall>i<bidders. \<exists>V alloc_m pay_m u.
              misr_bidder_i vals misreports i = Inr V \<and>
              Auctioneer bidders items ap V = Inr (alloc_m, pay_m) \<and>
              utility vals alloc_m pay_m = Inr u \<and> u_misr ! i = u ! i)"
proof -
  let ?m = "map (\<lambda>i. map sigmoid (misr_mlp mp (ravel (permute_along_bidders vals i)))) [0..<bidders]"
  have mr: "Misreporter bidders items mp vals = Inr ?m" by (rule Misreporter_ok[OF b v mp])
  have len: "length (misr_mlp mp (ravel (permute_along_bidders vals i))) = items" for i
    using mlp_out_permute[OF mp[unfolded misr_params_ok_def] v] by simp
  have ms: "has_shape ?m bidders items"
    using len by (simp add: has_shape_def list_all_iff)
  obtain u_misr where um: "misr_utility bidders items ap ?m vals = Inr u_misr"
    and lum: "length u_misr = bidders"
    and each: "\<forall>i<bidders. misr_utility_i bidders items ap ?m vals i = Inr (u_misr ! i)"
    using misr_utility_ok[OF b v ap ms] by blast
  have sum: "sum_list u_misr = (\<Sum>i\<leftarrow>[0..<bidders]. u_misr ! i)"
    using lum by (metis map_nth)
  have loss: "misr_loss bidders items mp ap vals = Inr (- (\<Sum>i\<leftarrow>[0..<bidders]. u_misr ! i))"
    unfolding misr_loss_def mr using um sum by simp
  have prof: "\<forall>i<bidders. \<exists>V alloc_m pay_m u.
              misr_bidder_i vals ?m i = Inr V \<and>
              Auctioneer bidders items ap V = Inr (alloc_m, pay_m) \<and>
              utility vals alloc_m pay_m = Inr u \<and> u_misr ! i = u ! i"
  proof (intro allI impI)
    fix i assume i: "i < bidders"
    obtain V alloc_m pay_m u where f:
      "misr_bidder_i vals ?m i = Inr V" "Auctioneer bidders items ap V = Inr (alloc_m, pay_m)"
      "utility vals alloc_m pay_m = Inr u"
      "misr_utility_i bidders items ap ?m vals i = Inr (u ! i)"
      using misr_utility_i_ok[OF b v ap ms, of i] by blast
    have ui: "u_misr ! i = u ! i" using each i f(4) by simp
    show "\<exists>V alloc_m pay_m u.
              misr_bidder_i vals ?m i = Inr V \<and>
              Auctioneer bidders items ap V = Inr (alloc_m, pay_m) \<and>
              utility vals alloc_m pay_m = Inr u \<and> u_misr ! i = u ! i"
      using f(1,2,3) ui by blast
  qed
  show ?thesis
    by (intro exI[of _ ?m] exI[of _ u_misr] conjI)
       (rule mr, rule um, rule lum, rule loss, rule prof)
qed

theorem misr_loss_value_witness:
  "(0::nat) < 2 \<and> has_shape [[1/4, 1/2], [3/4, 0]] 2 2 \<and> auct_params_ok 2 2 (zero_auct 2) \<and>
   misr_params_ok 2 2 (zero_misr 2) \<and>
   (\<exists>u_misr. length u_misr = 2 \<and>
      misr_loss 2 2 (zero_misr 2) (zero_auct 2) [[1/4, 1/2], [3/4, 0]] =
        Inr (- (\<Sum>i\<leftarrow>[0..<2]. u_misr ! i)))"
proof -
  have h1: "(0::nat) < 2" by simp
  have h2: "has_shape [[1/4, 1/2], [3/4, 0]] 2 2" by (simp add: has_shape_def)
  have h3: "auct_params_ok 2 2 (zero_auct 2)"
    by (simp add: auct_params_ok_def mlp_out_def zero_auct_def)
  have h4: "misr_params_ok 2 2 (zero_misr 2)"
    by (simp add: misr_params_ok_def mlp_out_def zero_misr_def)
  have "\<exists>u_misr. length u_misr = 2 \<and>
      misr_loss 2 2 (zero_misr 2) (zero_auct 2) [[1/4, 1/2], [3/4, 0]] =
        Inr (- (\<Sum>i\<leftarrow>[0..<2]. u_misr ! i))"
    using misr_loss_value[OF h1 h2 h3 h4] by blast
  then show ?thesis
    by (intro conjI) (rule h1, rule h2, rule h3, rule h4)
qed

lemma misr_bidder_i_beyond:
  assumes v: "has_shape vals b k" and m: "has_shape misrs b k" and ki: "k \<le> i"
  shows "misr_bidder_i vals misrs i = Inr vals"
proof -
  let ?V = "map (\<lambda>(v, m). v[i := m ! i]) (zip vals misrs)"
  have lv: "length vals = b" and lm: "length misrs = b"
    using v m by (simp_all add: has_shape_def)
  have "?V = vals"
  proof (rule nth_equalityI)
    show "length ?V = length vals" using lv lm by simp
    show "?V ! r = vals ! r" if "r < length ?V" for r
      using that ki lv lm nth_shape[OF v, of r] by (simp add: list_update_beyond)
  qed
  then show ?thesis using misr_bidder_i_ok[OF v m, of i] by simp
qed

text \<open>
  A bidder whose index is not below the number of items has no column to replace: for
  any misreports, the profile built for the bidder is the truthful one, the bidder's
  utility from misreporting is the truthful utility, and the regret is 0.
\<close>

theorem no_regret_beyond_items:
  assumes b: "0 < bidders" and v: "has_shape vals bidders items"
    and p: "auct_params_ok bidders items ap"
    and m: "has_shape misreports bidders items"
    and ki: "items \<le> i"
  shows "\<exists>alloc pay u_truth.
           Auctioneer bidders items ap vals = Inr (alloc, pay) \<and>
           utility vals alloc pay = Inr u_truth \<and>
           misr_bidder_i vals misreports i = Inr vals \<and>
           misr_utility_i bidders items ap misreports vals i = Inr (u_truth ! i) \<and>
           relu (u_truth ! i - u_truth ! i) = 0"
proof -
  obtain alloc s where sh: "has_shape alloc bidders items"
    and s: "allocated_value vals alloc = Inr s" and ls: "length s = bidders"
    and r: "Auctioneer bidders items ap vals =
             Inr (alloc, map (\<lambda>i. pay_fracs bidders ap vals ! i * s ! i) [0..<bidders])"
    using Auctioneer_ok[OF b v p] by blast
  let ?pay = "map (\<lambda>i. pay_fracs bidders ap vals ! i * s ! i) [0..<bidders]"
  let ?u = "map (\<lambda>i. s ! i - ?pay ! i) [0..<bidders]"
  have lp: "length ?pay = bidders" by simp
  have u: "utility vals alloc ?pay = Inr ?u" by (rule utility_ok[OF s ls lp])
  have pr: "misr_bidder_i vals misreports i = Inr vals"
    by (rule misr_bidder_i_beyond[OF v m ki])
  have mu: "misr_utility_i bidders items ap misreports vals i = Inr (?u ! i)"
    unfolding misr_utility_i_def pr using v r u by simp
  have z: "relu (?u ! i - ?u ! i) = 0" by (simp add: relu_def)
  show ?thesis
    by (intro exI[of _ alloc] exI[of _ ?pay] exI[of _ ?u] conjI)
       (rule r, rule u, rule pr, rule mu, rule z)
qed

theorem no_regret_beyond_items_witness:
  "(0::nat) < 3 \<and> has_shape [[1/10, 1/5], [3/10, 2/5], [1/2, 3/5]] 3 2 \<and>
   auct_params_ok 3 2 (zero_auct 2) \<and>
   has_shape [[9/10, 9/10], [9/10, 9/10], [9/10, 9/10]] 3 2 \<and> (2::nat) \<le> 2 \<and>
   misr_bidder_i [[1/10, 1/5], [3/10, 2/5], [1/2, 3/5]]
     [[9/10, 9/10], [9/10, 9/10], [9/10, 9/10]] 2 = Inr [[1/10, 1/5], [3/10, 2/5], [1/2, 3/5]] \<and>
   (\<exists>u. misr_utility_i 3 2 (zero_auct 2) [[9/10, 9/10], [9/10, 9/10], [9/10, 9/10]]
          [[1/10, 1/5], [3/10, 2/5], [1/2, 3/5]] 2 = Inr u)"
proof -
  have h1: "(0::nat) < 3" by simp
  have h2: "has_shape [[1/10, 1/5], [3/10, 2/5], [1/2, 3/5]] 3 2" by (simp add: has_shape_def)
  have h3: "auct_params_ok 3 2 (zero_auct 2)"
    by (simp add: auct_params_ok_def mlp_out_def zero_auct_def)
  have h4: "has_shape [[9/10, 9/10], [9/10, 9/10], [9/10, 9/10]] 3 2" by (simp add: has_shape_def)
  have h5: "(2::nat) \<le> 2" by simp
  obtain u_truth where
    pr: "misr_bidder_i [[1/10, 1/5], [3/10, 2/5], [1/2, 3/5]]
     [[9/10, 9/10], [9/10, 9/10], [9/10, 9/10]] 2 = Inr [[1/10, 1/5], [3/10, 2/5], [1/2, 3/5]]"
    and mu: "misr_utility_i 3 2 (zero_auct 2) [[9/10, 9/10], [9/10, 9/10], [9/10, 9/10]]
          [[1/10, 1/5], [3/10, 2/5], [1/2, 3/5]] 2 = Inr (u_truth ! 2)"
    using no_regret_beyond_items[OF h1 h2 h3 h4 h5] by blast
  have ex: "\<exists>u. misr_utility_i 3 2 (zero_auct 2) [[9/10, 9/10], [9/10, 9/10], [9/10, 9/10]]
          [[1/10, 1/5], [3/10, 2/5], [1/2, 3/5]] 2 = Inr u"
    using mu by blast
  show ?thesis
    by (intro conjI) (rule h1, rule h2, rule h3, rule h4, rule h5, rule pr, rule ex)
qed

section \<open>The steps of a run\<close>

lemma misr_rounds_keeps_misr_log:
  "ls_misr_log st \<noteq> None \<Longrightarrow> ls_misr_log (misr_rounds J tpal b n st) \<noteq> None"
  by (induction n arbitrary: st) (simp_all add: split_def Let_def)

lemma misr_rounds_misr_log:
  "0 < n \<Longrightarrow> ls_misr_log (misr_rounds J tpal b n st) \<noteq> None"
  by (cases n) (simp_all add: split_def Let_def misr_rounds_keeps_misr_log)

lemma initial_state_ok:
  "0 < cfg_bidders tpal \<Longrightarrow> \<exists>ts. initial_state J tpal rng vals = Inr ts"
  by (simp add: initial_state_def split_def Let_def)

lemma reinit_misr_ok:
  "0 < cfg_bidders tpal \<Longrightarrow> \<exists>ts. reinit_misr J tpal rng st vals = Inr ts"
  by (simp add: reinit_misr_def split_def Let_def)

lemma reinit_part_ok:
  assumes iv: "misr_reinit_iv \<noteq> 0" and nb: "0 < cfg_bidders tpal"
  shows "\<exists>st' rs. reinit_part J tpal rng misr_reinit_iv misr_reinit_lim step st = Inr st' \<and>
           ls_calls st' = ls_calls st @ rs \<and>
           ls_misr_log st' = ls_misr_log st \<and>
           (if step mod misr_reinit_iv = 0 \<and> step \<le> misr_reinit_lim
            then \<exists>one. rs = [Sampled one, Reinit] else rs = [])"
proof -
  obtain one sampler' where sm: "sample J (ls_sampler st) 1 = (Inr one, sampler')"
    using sample_ok[of 1 J "ls_sampler st"] by simp
  obtain ts where ri: "reinit_misr J tpal rng (ls_tpal st) one = Inr ts"
    using reinit_misr_ok[OF nb, of J rng "ls_tpal st" one] by blast
  show ?thesis using iv by (simp add: reinit_part_def sm ri)
qed

lemma log_part_ok:
  assumes le: "log_every \<noteq> 0" and m: "ls_misr_log st \<noteq> None" and a: "ls_auct_log st \<noteq> None"
  shows "\<exists>st' ps. log_part log_every step st = Inr st' \<and>
           ls_calls st' = ls_calls st @ ps \<and>
           (if step mod log_every = 0 then \<exists>al ml. ps = [Printed step al ml] else ps = [])"
  using le m a by (auto simp: log_part_def)

lemma train_step_ok:
  assumes bs: "1 \<le> batch_size" and iv: "misr_reinit_iv \<noteq> 0"
    and le: "log_every \<noteq> 0" and mu: "1 \<le> misr_updates" and nb: "0 < cfg_bidders tpal"
  shows "\<exists>st' batch rs ps.
           train_step J tpal rng log_every misr_updates misr_reinit_iv misr_reinit_lim
             batch_size step st = Inr st' \<and>
           fst (sample J (ls_sampler st) batch_size) = Inr batch \<and>
           ls_calls st' =
             ls_calls st @ [Sampled batch] @ rs @
             replicate (nat misr_updates) (MisrUpdate batch) @ [AuctUpdate batch] @ ps \<and>
           (if step mod misr_reinit_iv = 0 \<and> step \<le> misr_reinit_lim
            then \<exists>one. rs = [Sampled one, Reinit] else rs = []) \<and>
           (if step mod log_every = 0 then \<exists>al ml. ps = [Printed step al ml] else ps = [])"
proof -
  obtain batch sampler' where sm: "sample J (ls_sampler st) batch_size = (Inr batch, sampler')"
    using sample_ok[OF bs, of J "ls_sampler st"] by blast
  let ?st1 = "st\<lparr>ls_sampler := sampler', ls_calls := ls_calls st @ [Sampled batch]\<rparr>"
  obtain st2 rs where r: "reinit_part J tpal rng misr_reinit_iv misr_reinit_lim step ?st1 = Inr st2"
    and rc: "ls_calls st2 = ls_calls ?st1 @ rs"
    and rr: "if step mod misr_reinit_iv = 0 \<and> step \<le> misr_reinit_lim
            then \<exists>one. rs = [Sampled one, Reinit] else rs = []"
    using reinit_part_ok[OF iv nb, of J rng misr_reinit_lim step ?st1] by blast
  let ?st3 = "misr_rounds J tpal batch (nat misr_updates) st2"
  obtain ts a_loss where ua: "update_auct J tpal (ls_tpal ?st3) batch = (ts, a_loss)"
    by (cases "update_auct J tpal (ls_tpal ?st3) batch")
  let ?st4 = "?st3\<lparr>ls_tpal := ts, ls_auct_log := Some a_loss,
                   ls_calls := ls_calls ?st3 @ [AuctUpdate batch]\<rparr>"
  have m3: "ls_misr_log ?st4 \<noteq> None"
    using misr_rounds_misr_log[of "nat misr_updates" J tpal batch st2] mu by simp
  obtain st' ps where l: "log_part log_every step ?st4 = Inr st'"
    and lc: "ls_calls st' = ls_calls ?st4 @ ps"
    and lp: "if step mod log_every = 0 then \<exists>al ml. ps = [Printed step al ml] else ps = []"
    using log_part_ok[OF le m3, of step] by auto
  have run: "train_step J tpal rng log_every misr_updates misr_reinit_iv misr_reinit_lim
             batch_size step st = Inr st'"
    unfolding train_step_def by (simp add: sm r ua l Let_def)
  have calls: "ls_calls st' =
             ls_calls st @ [Sampled batch] @ rs @
             replicate (nat misr_updates) (MisrUpdate batch) @ [AuctUpdate batch] @ ps"
    using lc rc by (simp add: misr_rounds_calls)
  have fs: "fst (sample J (ls_sampler st) batch_size) = Inr batch" using sm by simp
  show ?thesis
    by (intro exI[of _ st'] exI[of _ batch] exI[of _ rs] exI[of _ ps] conjI)
       (rule run, rule fs, rule calls, rule rr, rule lp)
qed


text \<open>
  One step of the loop, for a batch size of at least 1, a reinitialisation interval and a
  \<open>log_every\<close> other than 0 and at least one misreporter update per step: the step
  samples its batch, reinitialises (with a sample of its own) exactly when
  \<open>step mod misr_reinit_iv = 0\<close> and \<open>step \<le> misr_reinit_lim\<close>, then makes
  \<open>misr_updates\<close> misreporter updates and one auctioneer update on that batch, and
  prints when \<open>step mod log_every = 0\<close>.
\<close>

theorem train_step_calls:
  assumes "1 \<le> batch_size" and "misr_reinit_iv \<noteq> 0"
    and "log_every \<noteq> 0" and "1 \<le> misr_updates" and "0 < cfg_bidders tpal"
  shows "\<exists>st' batch rs ps.
           train_step J tpal rng log_every misr_updates misr_reinit_iv misr_reinit_lim
             batch_size step st = Inr st' \<and>
           fst (sample J (ls_sampler st) batch_size) = Inr batch \<and>
           ls_calls st' =
             ls_calls st @ [Sampled batch] @ rs @
             replicate (nat misr_updates) (MisrUpdate batch) @ [AuctUpdate batch] @ ps \<and>
           (if step mod misr_reinit_iv = 0 \<and> step \<le> misr_reinit_lim
            then \<exists>one. rs = [Sampled one, Reinit] else rs = []) \<and>
           (if step mod log_every = 0 then \<exists>al ml. ps = [Printed step al ml] else ps = [])"
  using assms by (rule train_step_ok)

lemma count_append:
  "misr_update_count (xs @ ys) = misr_update_count xs + misr_update_count ys"
  "auct_update_count (xs @ ys) = auct_update_count xs + auct_update_count ys"
  "reinit_count (xs @ ys) = reinit_count xs + reinit_count ys"
  by (simp_all add: misr_update_count_def auct_update_count_def reinit_count_def)

lemma count_replicate_misr:
  "misr_update_count (replicate n (MisrUpdate b)) = n"
  "auct_update_count (replicate n (MisrUpdate b)) = 0"
  "reinit_count (replicate n (MisrUpdate b)) = 0"
  by (simp_all add: misr_update_count_def auct_update_count_def reinit_count_def)

lemma train_step_counts:
  assumes bs: "1 \<le> batch_size" and iv: "misr_reinit_iv \<noteq> 0"
    and le: "log_every \<noteq> 0" and mu: "1 \<le> misr_updates" and nb: "0 < cfg_bidders tpal"
  shows "\<exists>st'. train_step J tpal rng log_every misr_updates misr_reinit_iv misr_reinit_lim
             batch_size step st = Inr st' \<and>
           auct_update_count (ls_calls st') = auct_update_count (ls_calls st) + 1 \<and>
           misr_update_count (ls_calls st') = misr_update_count (ls_calls st) + nat misr_updates \<and>
           reinit_count (ls_calls st') = reinit_count (ls_calls st) +
             (if step mod misr_reinit_iv = 0 \<and> step \<le> misr_reinit_lim then 1 else 0)"
proof -
  obtain st' batch rs ps where
    run: "train_step J tpal rng log_every misr_updates misr_reinit_iv misr_reinit_lim
             batch_size step st = Inr st'"
    and calls: "ls_calls st' =
             ls_calls st @ [Sampled batch] @ rs @
             replicate (nat misr_updates) (MisrUpdate batch) @ [AuctUpdate batch] @ ps"
    and rr: "if step mod misr_reinit_iv = 0 \<and> step \<le> misr_reinit_lim
            then \<exists>one. rs = [Sampled one, Reinit] else rs = []"
    and lp: "if step mod log_every = 0 then \<exists>al ml. ps = [Printed step al ml] else ps = []"
    using train_step_ok[OF bs iv le mu nb, of J rng misr_reinit_lim step st] by blast
  have rs: "misr_update_count rs = 0 \<and> auct_update_count rs = 0 \<and>
            reinit_count rs = (if step mod misr_reinit_iv = 0 \<and> step \<le> misr_reinit_lim then 1 else 0)"
    using rr by (auto simp: misr_update_count_def auct_update_count_def reinit_count_def
        split: if_splits)
  have ps: "misr_update_count ps = 0 \<and> auct_update_count ps = 0 \<and> reinit_count ps = 0"
    using lp by (auto simp: misr_update_count_def auct_update_count_def reinit_count_def
        split: if_splits)
  have one: "misr_update_count [Sampled batch] = 0" "auct_update_count [Sampled batch] = 0"
    "reinit_count [Sampled batch] = 0" "misr_update_count [AuctUpdate batch] = 0"
    "auct_update_count [AuctUpdate batch] = 1" "reinit_count [AuctUpdate batch] = 0"
    by (simp_all add: misr_update_count_def auct_update_count_def reinit_count_def)
  have "auct_update_count (ls_calls st') = auct_update_count (ls_calls st) + 1 \<and>
        misr_update_count (ls_calls st') = misr_update_count (ls_calls st) + nat misr_updates \<and>
        reinit_count (ls_calls st') = reinit_count (ls_calls st) +
          (if step mod misr_reinit_iv = 0 \<and> step \<le> misr_reinit_lim then 1 else 0)"
    unfolding calls using rs ps one
    by (simp add: count_append count_replicate_misr del: append.simps)
  with run show ?thesis by blast
qed

lemma train_loop_counts:
  assumes bs: "1 \<le> batch_size" and iv: "misr_reinit_iv \<noteq> 0"
    and le: "log_every \<noteq> 0" and mu: "1 \<le> misr_updates" and nb: "0 < cfg_bidders tpal"
  shows "\<exists>st'. train_loop J tpal rng log_every misr_updates misr_reinit_iv misr_reinit_lim
             batch_size ss st = Inr st' \<and>
           auct_update_count (ls_calls st') = auct_update_count (ls_calls st) + length ss \<and>
           misr_update_count (ls_calls st') =
             misr_update_count (ls_calls st) + length ss * nat misr_updates \<and>
           reinit_count (ls_calls st') = reinit_count (ls_calls st) +
             length (filter (\<lambda>s. s mod misr_reinit_iv = 0 \<and> s \<le> misr_reinit_lim) ss)"
proof (induction ss arbitrary: st)
  case Nil
  then show ?case by simp
next
  case (Cons s ss)
  obtain st1 where
    s1: "train_step J tpal rng log_every misr_updates misr_reinit_iv misr_reinit_lim
             batch_size s st = Inr st1"
    and c1: "auct_update_count (ls_calls st1) = auct_update_count (ls_calls st) + 1"
      "misr_update_count (ls_calls st1) = misr_update_count (ls_calls st) + nat misr_updates"
      "reinit_count (ls_calls st1) = reinit_count (ls_calls st) +
             (if s mod misr_reinit_iv = 0 \<and> s \<le> misr_reinit_lim then 1 else 0)"
    using train_step_counts[OF bs iv le mu nb, of J rng misr_reinit_lim s st] by blast
  obtain st' where
    s2: "train_loop J tpal rng log_every misr_updates misr_reinit_iv misr_reinit_lim
             batch_size ss st1 = Inr st'"
    and c2: "auct_update_count (ls_calls st') = auct_update_count (ls_calls st1) + length ss"
      "misr_update_count (ls_calls st') =
             misr_update_count (ls_calls st1) + length ss * nat misr_updates"
      "reinit_count (ls_calls st') = reinit_count (ls_calls st1) +
             length (filter (\<lambda>s. s mod misr_reinit_iv = 0 \<and> s \<le> misr_reinit_lim) ss)"
    using Cons.IH[of st1] by blast
  show ?case
    using s1 s2 c1 c2 by simp
qed

text \<open>
  A run of at least 100 steps with at least one bidder, under the same conditions,
  raises nothing and makes one auctioneer update and \<open>misr_updates\<close> misreporter
  updates per step, and one reinitialisation per step that meets the condition.
\<close>

theorem training_runs_every_step:
  assumes ns: "100 \<le> num_steps" and bs: "1 \<le> batch_size"
    and iv: "misr_reinit_iv \<noteq> 0" and mu: "1 \<le> misr_updates" and nb: "0 < bidders"
  shows "\<exists>st. training J num_steps misr_updates misr_reinit_iv misr_reinit_lim batch_size
               bidders items net_width net_depth = Inr st \<and>
           auct_update_count (ls_calls st) = nat num_steps \<and>
           misr_update_count (ls_calls st) = nat num_steps * nat misr_updates \<and>
           reinit_count (ls_calls st) =
             length (filter (\<lambda>s. s mod misr_reinit_iv = 0 \<and> s \<le> misr_reinit_lim)
                       [0..num_steps - 1])"
proof -
  have le: "num_steps div 100 \<noteq> 0"
    using ns by (simp add: pos_imp_zdiv_pos_iff)
  obtain rng' rng_sampler rng_state_init rng_misr_reinit where
    sp: "split4 J (PRNGKey J 1729) = (rng', rng_sampler, rng_state_init, rng_misr_reinit)"
    by (metis prod_cases4)
  obtain one sa where a: "sample J (BidSampler_init rng_sampler bidders items) 1 = (Inr one, sa)"
    using sample_ok[of 1 J "BidSampler_init rng_sampler bidders items"] by simp
  let ?tpal = "\<lparr>cfg_bidders = bidders, cfg_items = items, cfg_net_width = net_width,
                 cfg_net_depth = net_depth\<rparr>"
  have nb': "0 < cfg_bidders ?tpal" using nb by simp
  obtain ts where ini: "initial_state J ?tpal rng_state_init one = Inr ts"
    using initial_state_ok[OF nb', of J rng_state_init one] by blast
  let ?st0 = "\<lparr>ls_tpal = ts, ls_sampler = sa,
                ls_misr_log = None, ls_auct_log = None, ls_calls = [Sampled one]\<rparr>"
  obtain st where
    r: "train_loop J ?tpal rng_misr_reinit (num_steps div 100) misr_updates misr_reinit_iv
          misr_reinit_lim batch_size [0..num_steps - 1] ?st0 = Inr st"
    and c: "auct_update_count (ls_calls st) =
              auct_update_count (ls_calls ?st0) + length [0..num_steps - 1]"
      "misr_update_count (ls_calls st) =
             misr_update_count (ls_calls ?st0) + length [0..num_steps - 1] * nat misr_updates"
      "reinit_count (ls_calls st) = reinit_count (ls_calls ?st0) +
             length (filter (\<lambda>s. s mod misr_reinit_iv = 0 \<and> s \<le> misr_reinit_lim)
                       [0..num_steps - 1])"
    using train_loop_counts[OF bs iv le mu nb', of J rng_misr_reinit misr_reinit_lim
        "[0..num_steps - 1]" ?st0] by blast
  have z: "auct_update_count [Sampled one] = 0" "misr_update_count [Sampled one] = 0"
    "reinit_count [Sampled one] = 0"
    by (simp_all add: misr_update_count_def auct_update_count_def reinit_count_def)
  have len: "length [0..num_steps - 1] = nat num_steps" using ns by simp
  have run: "training J num_steps misr_updates misr_reinit_iv misr_reinit_lim batch_size
               bidders items net_width net_depth = Inr st"
    unfolding training_def Let_def sp by (simp add: a ini r)
  show ?thesis
    using run c z len by simp
qed

text \<open>
  The reinitialisation replaces the misreporter's parameters and optimizer state and
  keeps the auctioneer's; an update of one player keeps the other player's.
\<close>

theorem reinit_misr_keeps_auctioneer:
  assumes "0 < cfg_bidders tpal"
  shows "\<exists>st'. reinit_misr J tpal rng st vals = Inr st' \<and>
           auct (params st') = auct (params st) \<and>
           auct (opt_state st') = auct (opt_state st) \<and>
           misr (params st') = misr_init J tpal (snd (split2 J rng)) vals \<and>
           misr (opt_state st') = opt_init J (misr_init J tpal (snd (split2 J rng)) vals)"
  using assms by (simp add: reinit_misr_def split_def Let_def)

theorem updates_keep_the_other_player:
  "auct (params (fst (update_misr J tpal st batch))) = auct (params st) \<and>
   auct (opt_state (fst (update_misr J tpal st batch))) = auct (opt_state st) \<and>
   misr (params (fst (update_auct J tpal st batch))) = misr (params st) \<and>
   misr (opt_state (fst (update_auct J tpal st batch))) = misr (opt_state st)"
  by (simp add: update_misr_def update_auct_def split_def Let_def)

theorem reinit_misr_keeps_auctioneer_witness:
  "0 < cfg_bidders \<lparr>cfg_bidders = 2, cfg_items = 2, cfg_net_width = 5, cfg_net_depth = 5\<rparr> \<and>
   (\<exists>st'. reinit_misr example_jax
            \<lparr>cfg_bidders = 2, cfg_items = 2, cfg_net_width = 5, cfg_net_depth = 5\<rparr> 9
            \<lparr>params = \<lparr>auct = 3, misr = 4\<rparr>, opt_state = \<lparr>auct = 5, misr = 6\<rparr>\<rparr>
            [[[1/2, 1/2], [1/2, 1/2]]] = Inr st' \<and>
          auct (params st') = 3 \<and> auct (opt_state st') = 5 \<and>
          misr (params st') = 0 \<and> misr (opt_state st') = 0)"
proof -
  let ?cfg = "\<lparr>cfg_bidders = 2, cfg_items = 2, cfg_net_width = 5, cfg_net_depth = 5\<rparr>"
  let ?st = "\<lparr>params = \<lparr>auct = 3::nat, misr = 4\<rparr>, opt_state = \<lparr>auct = 5::nat, misr = 6\<rparr>\<rparr>"
  have h: "0 < cfg_bidders ?cfg" by simp
  obtain st' where r: "reinit_misr example_jax ?cfg 9 ?st [[[1/2, 1/2], [1/2, 1/2]]] = Inr st'"
    and k: "auct (params st') = auct (params ?st)" "auct (opt_state st') = auct (opt_state ?st)"
      "misr (params st') = misr_init example_jax ?cfg (snd (split2 example_jax 9))
                             [[[1/2, 1/2], [1/2, 1/2]]]"
      "misr (opt_state st') = opt_init example_jax (misr_init example_jax ?cfg
                             (snd (split2 example_jax 9)) [[[1/2, 1/2], [1/2, 1/2]]])"
    using reinit_misr_keeps_auctioneer[OF h, of example_jax 9 ?st "[[[1/2, 1/2], [1/2, 1/2]]]"]
    by blast
  have "auct (params st') = 3 \<and> auct (opt_state st') = 5 \<and>
        misr (params st') = 0 \<and> misr (opt_state st') = 0"
    using k by (simp add: example_jax_def)
  then show ?thesis using h r by blast
qed

theorem train_step_calls_witness:
  "(1::int) \<le> 2 \<and> (3::int) \<noteq> 0 \<and> (1::int) \<noteq> 0 \<and> (1::int) \<le> 2 \<and>
   0 < cfg_bidders \<lparr>cfg_bidders = 2, cfg_items = 2, cfg_net_width = 5, cfg_net_depth = 5\<rparr> \<and>
   (\<exists>st'. train_step example_jax
            \<lparr>cfg_bidders = 2, cfg_items = 2, cfg_net_width = 5, cfg_net_depth = 5\<rparr> 9 1 2 3 10 2 0
            \<lparr>ls_tpal = \<lparr>params = \<lparr>auct = 0, misr = 0\<rparr>, opt_state = \<lparr>auct = 0, misr = 0\<rparr>\<rparr>,
             ls_sampler = BidSampler_init 7 2 2, ls_misr_log = None, ls_auct_log = None,
             ls_calls = []\<rparr> = Inr st' \<and>
          (\<exists>batch one al ml. ls_calls st' =
             [Sampled batch, Sampled one, Reinit, MisrUpdate batch, MisrUpdate batch,
              AuctUpdate batch, Printed 0 al ml]))"
proof -
  have h: "(1::int) \<le> 2" "(3::int) \<noteq> 0" "(1::int) \<noteq> 0" "(1::int) \<le> 2"
    "0 < cfg_bidders \<lparr>cfg_bidders = 2, cfg_items = 2, cfg_net_width = 5, cfg_net_depth = 5\<rparr>"
    by simp_all
  let ?st = "\<lparr>ls_tpal = \<lparr>params = \<lparr>auct = 0::nat, misr = 0\<rparr>, opt_state = \<lparr>auct = 0::nat, misr = 0\<rparr>\<rparr>,
             ls_sampler = BidSampler_init (7::nat) 2 2, ls_misr_log = None, ls_auct_log = None,
             ls_calls = []\<rparr>"
  let ?cfg = "\<lparr>cfg_bidders = 2, cfg_items = 2, cfg_net_width = 5, cfg_net_depth = 5\<rparr>"
  obtain st' batch rs ps where
    run: "train_step example_jax ?cfg 9 1 2 3 10 2 0 ?st = Inr st'"
    and calls: "ls_calls st' = ls_calls ?st @ [Sampled batch] @ rs @
             replicate (nat 2) (MisrUpdate batch) @ [AuctUpdate batch] @ ps"
    and rr: "if (0::int) mod 3 = 0 \<and> (0::int) \<le> 10
            then \<exists>one. rs = [Sampled one, Reinit] else rs = []"
    and lp: "if (0::int) mod 1 = 0 then \<exists>al ml. ps = [Printed 0 al ml] else ps = []"
    using train_step_calls[OF h(1) h(2) h(3) h(4) h(5), of example_jax 9 10 0 ?st] by blast
  obtain one where rs: "rs = [Sampled one, Reinit]" using rr by auto
  obtain al ml where ps: "ps = [Printed 0 al ml]" using lp by auto
  have "ls_calls st' = [Sampled batch, Sampled one, Reinit, MisrUpdate batch, MisrUpdate batch,
              AuctUpdate batch, Printed 0 al ml]"
    unfolding calls rs ps by (simp add: eval_nat_numeral)
  then have "\<exists>st'. train_step example_jax ?cfg 9 1 2 3 10 2 0 ?st = Inr st' \<and>
          (\<exists>batch one al ml. ls_calls st' =
             [Sampled batch, Sampled one, Reinit, MisrUpdate batch, MisrUpdate batch,
              AuctUpdate batch, Printed 0 al ml])"
    using run by blast
  then show ?thesis
    by (intro conjI) (rule h(1), rule h(2), rule h(3), rule h(4), rule h(5))
qed

theorem training_runs_every_step_witness:
  "(100::int) \<le> 100 \<and> (1::int) \<le> 1 \<and> (1::int) \<noteq> 0 \<and> (1::int) \<le> 2 \<and> (0::nat) < 2 \<and>
   (\<exists>st. training example_jax 100 2 1 0 1 2 2 5 5 = Inr st \<and>
         auct_update_count (ls_calls st) = 100 \<and>
         misr_update_count (ls_calls st) = 200)"
proof -
  have h: "(100::int) \<le> 100" "(1::int) \<le> 1" "(1::int) \<noteq> 0" "(1::int) \<le> 2" "(0::nat) < 2"
    by simp_all
  obtain st where "training example_jax 100 2 1 0 1 2 2 5 5 = Inr st"
    "auct_update_count (ls_calls st) = nat 100"
    "misr_update_count (ls_calls st) = nat 100 * nat 2"
    using training_runs_every_step[OF h(1) h(2) h(3) h(4) h(5), of example_jax 0 2 5 5] by blast
  then have "\<exists>st. training example_jax 100 2 1 0 1 2 2 5 5 = Inr st \<and>
         auct_update_count (ls_calls st) = 100 \<and>
         misr_update_count (ls_calls st) = 200"
    by simp
  then show ?thesis
    by (intro conjI) (rule h(1), rule h(2), rule h(3), rule h(4), rule h(5))
qed

lemma train_step_log_every_zero:
  assumes bs: "1 \<le> batch_size" and iv: "misr_reinit_iv \<noteq> 0" and nb: "0 < cfg_bidders tpal"
  shows "\<exists>calls. train_step J tpal rng 0 misr_updates misr_reinit_iv misr_reinit_lim
             batch_size step st = Inl (ZeroDivisionError, calls) \<and>
           auct_update_count calls = auct_update_count (ls_calls st) + 1 \<and>
           misr_update_count calls = misr_update_count (ls_calls st) + nat misr_updates"
proof -
  obtain batch sampler' where sm: "sample J (ls_sampler st) batch_size = (Inr batch, sampler')"
    using sample_ok[OF bs, of J "ls_sampler st"] by blast
  let ?st1 = "st\<lparr>ls_sampler := sampler', ls_calls := ls_calls st @ [Sampled batch]\<rparr>"
  obtain st2 rs where r: "reinit_part J tpal rng misr_reinit_iv misr_reinit_lim step ?st1 = Inr st2"
    and rc: "ls_calls st2 = ls_calls ?st1 @ rs"
    and rr: "if step mod misr_reinit_iv = 0 \<and> step \<le> misr_reinit_lim
            then \<exists>one. rs = [Sampled one, Reinit] else rs = []"
    using reinit_part_ok[OF iv nb, of J rng misr_reinit_lim step ?st1] by blast
  let ?calls = "ls_calls st @ [Sampled batch] @ rs @
                replicate (nat misr_updates) (MisrUpdate batch) @ [AuctUpdate batch]"
  have run: "train_step J tpal rng 0 misr_updates misr_reinit_iv misr_reinit_lim
             batch_size step st = Inl (ZeroDivisionError, ?calls)"
    unfolding train_step_def
    by (simp add: sm r rc log_part_zero misr_rounds_calls split_def Let_def)
  have rs: "misr_update_count rs = 0 \<and> auct_update_count rs = 0"
    using rr by (auto simp: misr_update_count_def auct_update_count_def split: if_splits)
  have one: "misr_update_count [Sampled batch] = 0" "auct_update_count [Sampled batch] = 0"
    "misr_update_count [AuctUpdate batch] = 0" "auct_update_count [AuctUpdate batch] = 1"
    by (simp_all add: misr_update_count_def auct_update_count_def)
  have "auct_update_count ?calls = auct_update_count (ls_calls st) + 1 \<and>
        misr_update_count ?calls = misr_update_count (ls_calls st) + nat misr_updates"
    using rs one by (simp add: count_append count_replicate_misr del: append.simps)
  with run show ?thesis by blast
qed

text \<open>
  A run of 1 to 99 steps with at least one bidder raises \<open>ZeroDivisionError\<close> after the
  updates of step 0.
\<close>

theorem training_below_100_steps_raises:
  assumes ns: "1 \<le> num_steps" "num_steps < 100" and bs: "1 \<le> batch_size"
    and iv: "misr_reinit_iv \<noteq> 0" and nb: "0 < bidders"
  shows "\<exists>calls. training J num_steps misr_updates misr_reinit_iv misr_reinit_lim batch_size
               bidders items net_width net_depth = Inl (ZeroDivisionError, calls) \<and>
           auct_update_count calls = 1 \<and> misr_update_count calls = nat misr_updates"
proof -
  have le: "num_steps div 100 = 0" using ns by simp
  have u: "[0..num_steps - 1] = 0 # [1..num_steps - 1]"
    using ns by (simp add: upto_rec1)
  obtain rng' rng_sampler rng_state_init rng_misr_reinit where
    sp: "split4 J (PRNGKey J 1729) = (rng', rng_sampler, rng_state_init, rng_misr_reinit)"
    by (metis prod_cases4)
  obtain one sa where a: "sample J (BidSampler_init rng_sampler bidders items) 1 = (Inr one, sa)"
    using sample_ok[of 1 J "BidSampler_init rng_sampler bidders items"] by simp
  let ?tpal = "\<lparr>cfg_bidders = bidders, cfg_items = items, cfg_net_width = net_width,
                 cfg_net_depth = net_depth\<rparr>"
  have nb': "0 < cfg_bidders ?tpal" using nb by simp
  obtain ts where ini: "initial_state J ?tpal rng_state_init one = Inr ts"
    using initial_state_ok[OF nb', of J rng_state_init one] by blast
  let ?st0 = "\<lparr>ls_tpal = ts, ls_sampler = sa,
                ls_misr_log = None, ls_auct_log = None, ls_calls = [Sampled one]\<rparr>"
  obtain calls where
    r: "train_step J ?tpal rng_misr_reinit 0 misr_updates misr_reinit_iv misr_reinit_lim
             batch_size 0 ?st0 = Inl (ZeroDivisionError, calls)"
    and c: "auct_update_count calls = auct_update_count (ls_calls ?st0) + 1"
      "misr_update_count calls = misr_update_count (ls_calls ?st0) + nat misr_updates"
    using train_step_log_every_zero[OF bs iv nb', of J rng_misr_reinit misr_updates
        misr_reinit_lim 0 ?st0] by blast
  have z: "auct_update_count [Sampled one] = 0" "misr_update_count [Sampled one] = 0"
    by (simp_all add: misr_update_count_def auct_update_count_def)
  have run: "training J num_steps misr_updates misr_reinit_iv misr_reinit_lim batch_size
               bidders items net_width net_depth = Inl (ZeroDivisionError, calls)"
    unfolding training_def Let_def sp le u by (simp add: a ini r)
  show ?thesis using run c z by simp
qed

theorem training_below_100_steps_raises_witness:
  "(1::int) \<le> 99 \<and> (99::int) < 100 \<and> (1::int) \<le> 1 \<and> (1::int) \<noteq> 0 \<and> (0::nat) < 2 \<and>
   (\<exists>calls. training example_jax 99 2 1 0 1 2 2 5 5 = Inl (ZeroDivisionError, calls) \<and>
         auct_update_count calls = 1 \<and> misr_update_count calls = 2)"
proof -
  have h: "(1::int) \<le> 99" "(99::int) < 100" "(1::int) \<le> 1" "(1::int) \<noteq> 0" "(0::nat) < 2"
    by simp_all
  obtain calls where "training example_jax 99 2 1 0 1 2 2 5 5 = Inl (ZeroDivisionError, calls)"
    "auct_update_count calls = 1" "misr_update_count calls = nat 2"
    using training_below_100_steps_raises[OF h(1) h(2) h(3) h(4) h(5), of example_jax 2 0 2 5 5]
    by blast
  then have "\<exists>calls. training example_jax 99 2 1 0 1 2 2 5 5 = Inl (ZeroDivisionError, calls) \<and>
         auct_update_count calls = 1 \<and> misr_update_count calls = 2"
    by simp
  then show ?thesis
    by (intro conjI) (rule h(1), rule h(2), rule h(3), rule h(4), rule h(5))
qed

text \<open>
  Three more ways for a run to stop early: without a misreporter update the local
  \<^verbatim>\<open>misr_log\<close> is unbound when the first step logs; a reinitialisation interval of
  0 raises in \<^verbatim>\<open>step % misr_reinit_iv\<close> before any update; and with no bidder the
  initial state raises before the loop.
\<close>

lemma training_without_misr_updates_raises:
  assumes ns: "100 \<le> num_steps" and bs: "1 \<le> batch_size"
    and iv: "misr_reinit_iv \<noteq> 0" and mu: "misr_updates \<le> 0" and nb: "0 < bidders"
  shows "\<exists>calls. training J num_steps misr_updates misr_reinit_iv misr_reinit_lim batch_size
               bidders items net_width net_depth = Inl (UnboundLocalError, calls) \<and>
           auct_update_count calls = 1 \<and> misr_update_count calls = 0"
proof -
  have le: "num_steps div 100 \<noteq> 0"
    using ns by (simp add: pos_imp_zdiv_pos_iff)
  have u: "[0..num_steps - 1] = 0 # [1..num_steps - 1]"
    using ns by (simp add: upto_rec1)
  have n0: "nat misr_updates = 0" using mu by simp
  obtain rng' rng_sampler rng_state_init rng_misr_reinit where
    sp: "split4 J (PRNGKey J 1729) = (rng', rng_sampler, rng_state_init, rng_misr_reinit)"
    by (metis prod_cases4)
  obtain one sa where a: "sample J (BidSampler_init rng_sampler bidders items) 1 = (Inr one, sa)"
    using sample_ok[of 1 J "BidSampler_init rng_sampler bidders items"] by simp
  obtain batch sb where sm: "sample J sa batch_size = (Inr batch, sb)"
    using sample_ok[OF bs, of J sa] by blast
  let ?tpal = "\<lparr>cfg_bidders = bidders, cfg_items = items, cfg_net_width = net_width,
                 cfg_net_depth = net_depth\<rparr>"
  have nb': "0 < cfg_bidders ?tpal" using nb by simp
  obtain ts where ini: "initial_state J ?tpal rng_state_init one = Inr ts"
    using initial_state_ok[OF nb', of J rng_state_init one] by blast
  let ?st0 = "\<lparr>ls_tpal = ts, ls_sampler = sa,
                ls_misr_log = None, ls_auct_log = None, ls_calls = [Sampled one]\<rparr>"
  let ?st1 = "\<lparr>ls_tpal = ts, ls_sampler = sb,
                ls_misr_log = None, ls_auct_log = None,
                ls_calls = [Sampled one, Sampled batch]\<rparr>"
  obtain st2 rs where r: "reinit_part J ?tpal rng_misr_reinit misr_reinit_iv misr_reinit_lim 0 ?st1 = Inr st2"
    and rc: "ls_calls st2 = ls_calls ?st1 @ rs"
    and ml': "ls_misr_log st2 = ls_misr_log ?st1"
    and rr: "if (0::int) mod misr_reinit_iv = 0 \<and> 0 \<le> misr_reinit_lim
            then \<exists>one. rs = [Sampled one, Reinit] else rs = []"
    using reinit_part_ok[OF iv nb', of J rng_misr_reinit misr_reinit_lim 0 ?st1] by blast
  have ml: "ls_misr_log st2 = None" using ml' by simp
  let ?calls = "[Sampled one, Sampled batch] @ rs @ [AuctUpdate batch]"
  have step: "train_step J ?tpal rng_misr_reinit (num_steps div 100) misr_updates misr_reinit_iv
             misr_reinit_lim batch_size 0 ?st0 = Inl (UnboundLocalError, ?calls)"
    unfolding train_step_def using le
    by (simp add: sm r rc n0 ml log_part_def split_def Let_def)
  have run: "training J num_steps misr_updates misr_reinit_iv misr_reinit_lim batch_size
               bidders items net_width net_depth = Inl (UnboundLocalError, ?calls)"
    unfolding training_def Let_def sp u by (simp add: a ini step)
  have rs: "misr_update_count rs = 0 \<and> auct_update_count rs = 0"
    using rr by (auto simp: misr_update_count_def auct_update_count_def split: if_splits)
  have c: "auct_update_count ?calls = 1 \<and> misr_update_count ?calls = 0"
    using rs by (simp add: count_append misr_update_count_def auct_update_count_def
        del: append.simps)
  show ?thesis using run c by blast
qed

lemma training_zero_interval_raises:
  assumes ns: "1 \<le> num_steps" and bs: "1 \<le> batch_size" and nb: "0 < bidders"
  shows "\<exists>one batch. training J num_steps misr_updates 0 misr_reinit_lim batch_size
               bidders items net_width net_depth =
             Inl (ZeroDivisionError, [Sampled one, Sampled batch])"
proof -
  have u: "[0..num_steps - 1] = 0 # [1..num_steps - 1]"
    using ns by (simp add: upto_rec1)
  obtain rng' rng_sampler rng_state_init rng_misr_reinit where
    sp: "split4 J (PRNGKey J 1729) = (rng', rng_sampler, rng_state_init, rng_misr_reinit)"
    by (metis prod_cases4)
  obtain one sa where a: "sample J (BidSampler_init rng_sampler bidders items) 1 = (Inr one, sa)"
    using sample_ok[of 1 J "BidSampler_init rng_sampler bidders items"] by simp
  obtain batch sb where sm: "sample J sa batch_size = (Inr batch, sb)"
    using sample_ok[OF bs, of J sa] by blast
  have "training J num_steps misr_updates 0 misr_reinit_lim batch_size
               bidders items net_width net_depth =
             Inl (ZeroDivisionError, [Sampled one, Sampled batch])"
    unfolding training_def Let_def sp u using nb
    by (simp add: a sm train_step_def reinit_part_def initial_state_def split_def Let_def)
  then show ?thesis by blast
qed

lemma training_no_bidder_raises:
  "\<exists>one. training J num_steps misr_updates misr_reinit_iv misr_reinit_lim batch_size
           0 items net_width net_depth = Inl (ValueError, [Sampled one])"
proof -
  obtain rng' rng_sampler rng_state_init rng_misr_reinit where
    sp: "split4 J (PRNGKey J 1729) = (rng', rng_sampler, rng_state_init, rng_misr_reinit)"
    by (metis prod_cases4)
  obtain one sa where a: "sample J (BidSampler_init rng_sampler 0 items) 1 = (Inr one, sa)"
    using sample_ok[of 1 J "BidSampler_init rng_sampler 0 items"] by simp
  have "training J num_steps misr_updates misr_reinit_iv misr_reinit_lim batch_size
           0 items net_width net_depth = Inl (ValueError, [Sampled one])"
    unfolding training_def Let_def sp by (simp add: a initial_state_def split_def Let_def)
  then show ?thesis by blast
qed

end
